theory Spec2Isabelle
  imports Main
begin

section \<open>Strings and numbers of the host language\<close>

text \<open>
  A TypeScript string is a sequence of UTF-16 code units. A code unit is modelled as a
  natural number, a string as a list of them; \<open>jsstr\<close> embeds an ASCII literal.
\<close>

type_synonym cunit = nat
type_synonym jsstring = "cunit list"

definition jsstr :: "string \<Rightarrow> jsstring" where
  "jsstr s = map of_char s"

text \<open>
  A \<open>number\<close> is a double. The model follows \<open>NaN\<close> and the integers of magnitude at
  most \<open>2^53\<close>: doubles hold these exactly, and a sum or a difference of two of them
  that stays in this range is exact. Every other number is \<open>Opaque\<close>: the model keeps
  that a number is there and does not say which one. This covers a magnitude above
  \<open>2^53\<close>, an infinity, a fraction, negative zero, and the result of arithmetic on an
  opaque number. \<open>Num n\<close> with \<open>n\<close> out of the range is read as opaque too.
\<close>

datatype jsnum = NaN | Num int | Opaque

definition safe :: "int \<Rightarrow> bool" where
  "safe n = (\<bar>n\<bar> \<le> 9007199254740992)"

definition num :: "int \<Rightarrow> jsnum" where
  "num n = (if safe n then Num n else Opaque)"

text \<open>The numbers whose value the model follows.\<close>

fun known :: "jsnum \<Rightarrow> bool" where
  "known NaN = True"
| "known (Num n) = safe n"
| "known Opaque = False"

fun jsub :: "jsnum \<Rightarrow> jsnum \<Rightarrow> jsnum" where
  "jsub NaN _ = NaN"
| "jsub _ NaN = NaN"
| "jsub (Num a) (Num b) = (if safe a \<and> safe b then num (a - b) else Opaque)"
| "jsub _ _ = Opaque"

fun jadd :: "jsnum \<Rightarrow> jsnum \<Rightarrow> jsnum" where
  "jadd NaN _ = NaN"
| "jadd _ NaN = NaN"
| "jadd (Num a) (Num b) = (if safe a \<and> safe b then num (a + b) else Opaque)"
| "jadd _ _ = Opaque"

text \<open>
  Comparisons with \<open>NaN\<close> are false; a comparison with an opaque number has no answer
  in the model.
\<close>

fun jgt :: "jsnum \<Rightarrow> jsnum \<Rightarrow> bool option" where
  "jgt NaN _ = Some False"
| "jgt _ NaN = Some False"
| "jgt (Num a) (Num b) = (if safe a \<and> safe b then Some (a > b) else None)"
| "jgt _ _ = None"

fun jlt :: "jsnum \<Rightarrow> jsnum \<Rightarrow> bool option" where
  "jlt NaN _ = Some False"
| "jlt _ NaN = Some False"
| "jlt (Num a) (Num b) = (if safe a \<and> safe b then Some (a < b) else None)"
| "jlt _ _ = None"

fun jabs :: "jsnum \<Rightarrow> jsnum" where
  "jabs NaN = NaN"
| "jabs (Num a) = (if safe a then Num \<bar>a\<bar> else Opaque)"
| "jabs Opaque = Opaque"

text \<open>
  What a function of the program does: it returns, it throws, or its outcome hangs on
  an opaque number and the model does not determine it.
\<close>

datatype jserror = TypeError | RangeError

datatype 'a outcome = Ok 'a | Throws jserror | Undetermined

fun andThen :: "'a outcome \<Rightarrow> ('a \<Rightarrow> 'b outcome) \<Rightarrow> 'b outcome" where
  "andThen (Ok x) f = f x"
| "andThen (Throws e) f = Throws e"
| "andThen Undetermined f = Undetermined"

subsection \<open>Character classes\<close>

definition isDigit :: "cunit \<Rightarrow> bool" where
  "isDigit c = (48 \<le> c \<and> c \<le> 57)"

text \<open>
  White space and line terminators: the class \<open>\s\<close> of a regular expression, and what
  \<open>trim\<close> strips.
\<close>

definition isSpace :: "cunit \<Rightarrow> bool" where
  "isSpace c = (c = 9 \<or> c = 10 \<or> c = 11 \<or> c = 12 \<or> c = 13 \<or> c = 32 \<or> c = 160
     \<or> c = 5760 \<or> (8192 \<le> c \<and> c \<le> 8202) \<or> c = 8232 \<or> c = 8233 \<or> c = 8239
     \<or> c = 8287 \<or> c = 12288 \<or> c = 65279)"

text \<open>The word characters that decide \<open>\b\<close>: letters, digits and the underscore.\<close>

definition isWordChar :: "cunit \<Rightarrow> bool" where
  "isWordChar c = ((65 \<le> c \<and> c \<le> 90) \<or> (97 \<le> c \<and> c \<le> 122) \<or> isDigit c \<or> c = 95)"

text \<open>
  Case folding of the \<open>i\<close> flag (without the \<open>u\<close> flag): a code unit is compared by its
  upper-case form, and a non-ASCII code unit never folds to an ASCII one. All letters in
  the patterns of this program are ASCII, so only ASCII folding is needed.
\<close>

definition toUpper :: "cunit \<Rightarrow> cunit" where
  "toUpper c = (if 97 \<le> c \<and> c \<le> 122 then c - 32 else c)"

subsection \<open>String operations\<close>

definition trim :: "jsstring \<Rightarrow> jsstring" where
  "trim s = rev (dropWhile isSpace (rev (dropWhile isSpace s)))"

text \<open>\<open>s.split(sep)\<close> for a separator of one code unit; the result is never empty.\<close>

fun split :: "cunit \<Rightarrow> jsstring \<Rightarrow> jsstring list" where
  "split sep [] = [[]]"
| "split sep (c # cs) =
     (if c = sep then [] # split sep cs
      else (case split sep cs of
              [] \<Rightarrow> [[c]]
            | p # ps \<Rightarrow> (c # p) # ps))"

text \<open>\<open>msg.split("\n")[0]\<close>: the text before the first line feed.\<close>

definition firstLine :: "jsstring \<Rightarrow> jsstring" where
  "firstLine msg = (case split 10 msg of [] \<Rightarrow> [] | l # _ \<Rightarrow> l)"

text \<open>\<open>s.replace(/,/g, "")\<close>\<close>

definition stripCommas :: "jsstring \<Rightarrow> jsstring" where
  "stripCommas s = filter (\<lambda>c. c \<noteq> 44) s"

fun joinWith :: "jsstring \<Rightarrow> jsstring list \<Rightarrow> jsstring" where
  "joinWith sep [] = []"
| "joinWith sep [x] = x"
| "joinWith sep (x # y # ys) = x @ sep @ joinWith sep (y # ys)"

subsection \<open>parseInt\<close>

definition digitVal :: "cunit \<Rightarrow> nat" where
  "digitVal c = (if isDigit c then c - 48
                 else if 97 \<le> c \<and> c \<le> 122 then c - 87
                 else if 65 \<le> c \<and> c \<le> 90 then c - 55
                 else 36)"

fun digitsVal :: "nat \<Rightarrow> nat \<Rightarrow> jsstring \<Rightarrow> nat" where
  "digitsVal radix acc [] = acc"
| "digitsVal radix acc (c # cs) = digitsVal radix (acc * radix + digitVal c) cs"

text \<open>
  \<open>parseInt(s)\<close> with no radix: skip leading white space, read a sign, read a \<open>0x\<close>
  prefix (then radix 16), take the longest prefix of digits; no digit gives \<open>NaN\<close>.
  The result is the double nearest to the integer that the digits spell: that integer
  itself up to \<open>2^53\<close>, an opaque number beyond, and negative zero for a negated zero.
\<close>

definition parseInt :: "jsstring \<Rightarrow> jsnum" where
  "parseInt s =
     (let t = dropWhile isSpace s;
          neg = (case t of [] \<Rightarrow> False | c # _ \<Rightarrow> c = 45);
          u = (case t of [] \<Rightarrow> [] | c # cs \<Rightarrow> if c = 43 \<or> c = 45 then cs else t);
          hex = (case u of a # b # _ \<Rightarrow> a = 48 \<and> (b = 120 \<or> b = 88) | _ \<Rightarrow> False);
          radix = (if hex then 16 else 10);
          v = (if hex then drop 2 u else u);
          ds = takeWhile (\<lambda>c. digitVal c < radix) v
      in if ds = [] then NaN
         else if neg \<and> digitsVal radix 0 ds = 0 then Opaque
         else num ((if neg then - 1 else 1) * int (digitsVal radix 0 ds)))"

text \<open>
  The decimal text of an integer. A template literal prints a number of the followed
  range so (exponents start at \<open>10^21\<close>), and \<open>NaN\<close> as "NaN". The length of an array is
  below \<open>2^32\<close> and prints so as well.
\<close>

fun natToString :: "nat \<Rightarrow> jsstring" where
  "natToString n = (if n < 10 then [48 + n] else natToString (n div 10) @ [48 + n mod 10])"

declare natToString.simps [simp del]

definition intToString :: "int \<Rightarrow> jsstring" where
  "intToString i = (if i < 0 then 45 # natToString (nat (- i)) else natToString (nat i))"

fun numToString :: "jsnum \<Rightarrow> jsstring option" where
  "numToString NaN = Some (jsstr ''NaN'')"
| "numToString (Num i) = (if safe i then Some (intToString i) else None)"
| "numToString Opaque = None"

section \<open>Regular expressions\<close>

text \<open>
  The patterns of the program use literals, character classes, greedy repetition of a
  character class, optional groups, alternation, one capture group, the assertions
  \<open>^\<close>, \<open>$\<close> and \<open>\b\<close>. The matcher is the backtracking matcher of the language: it
  takes the state and a continuation, and a failed continuation makes the matcher try
  its next alternative.
\<close>

datatype rx =
    Eps
  | Atom "cunit \<Rightarrow> bool"
  | Star "cunit \<Rightarrow> bool"
  | Plus "cunit \<Rightarrow> bool"
  | Seq rx rx
  | Alt rx rx
  | Opt rx
  | Grp rx
  | Bol
  | Eol
  | WordB

text \<open>
  The state of a match: the code units before the position (in reverse), the code units
  from the position on, and the text of the capture group.
\<close>

datatype mstate = MState (before: jsstring) (rest: jsstring) (grp: "jsstring option")

fun rep :: "(cunit \<Rightarrow> bool) \<Rightarrow> jsstring \<Rightarrow> jsstring \<Rightarrow> jsstring option
              \<Rightarrow> (mstate \<Rightarrow> mstate option) \<Rightarrow> mstate option" where
  "rep p bef [] g k = k (MState bef [] g)"
| "rep p bef (c # cs) g k =
     (if p c then
        (case rep p (c # bef) cs g k of
           Some r \<Rightarrow> Some r
         | None \<Rightarrow> k (MState bef (c # cs) g))
      else k (MState bef (c # cs) g))"

definition atWordBoundary :: "mstate \<Rightarrow> bool" where
  "atWordBoundary x =
     ((case before x of [] \<Rightarrow> False | a # _ \<Rightarrow> isWordChar a)
      \<noteq> (case rest x of [] \<Rightarrow> False | b # _ \<Rightarrow> isWordChar b))"

fun m :: "rx \<Rightarrow> mstate \<Rightarrow> (mstate \<Rightarrow> mstate option) \<Rightarrow> mstate option" where
  "m Eps x k = k x"
| "m (Atom p) x k =
     (case rest x of
        [] \<Rightarrow> None
      | c # cs \<Rightarrow> if p c then k (MState (c # before x) cs (grp x)) else None)"
| "m (Star p) x k = rep p (before x) (rest x) (grp x) k"
| "m (Plus p) x k =
     (case rest x of
        [] \<Rightarrow> None
      | c # cs \<Rightarrow> if p c then rep p (c # before x) cs (grp x) k else None)"
| "m (Seq a b) x k = m a x (\<lambda>y. m b y k)"
| "m (Alt a b) x k = (case m a x k of Some r \<Rightarrow> Some r | None \<Rightarrow> m b x k)"
| "m (Opt a) x k =
     (case m a x (\<lambda>y. if length (rest y) < length (rest x) then k y else None) of
        Some r \<Rightarrow> Some r
      | None \<Rightarrow> k x)"
| "m (Grp a) x k =
     m a x (\<lambda>y. k (MState (before y) (rest y)
                    (Some (rev (take (length (before y) - length (before x)) (before y))))))"
| "m Bol x k = (if before x = [] then k x else None)"
| "m Eol x k = (if rest x = [] then k x else None)"
| "m WordB x k = (if atWordBoundary x then k x else None)"

text \<open>
  The result of a successful \<open>exec\<close>: the matched text (\<open>match[0]\<close>) and the capture
  group (\<open>match[1]\<close>).
\<close>

record rmatch =
  matched :: jsstring
  group1 :: "jsstring option"

text \<open>A search without the sticky flag: the first start position with a match.\<close>

fun search :: "rx \<Rightarrow> jsstring \<Rightarrow> jsstring \<Rightarrow> rmatch option" where
  "search r bef [] =
     (case m r (MState bef [] None) Some of
        Some y \<Rightarrow> Some \<lparr>matched = rev (take (length (before y) - length bef) (before y)),
                        group1 = grp y\<rparr>
      | None \<Rightarrow> None)"
| "search r bef (c # cs) =
     (case m r (MState bef (c # cs) None) Some of
        Some y \<Rightarrow> Some \<lparr>matched = rev (take (length (before y) - length bef) (before y)),
                        group1 = grp y\<rparr>
      | None \<Rightarrow> search r (c # bef) cs)"

definition exec :: "rx \<Rightarrow> jsstring \<Rightarrow> rmatch option" where
  "exec r s = search r [] s"

definition test :: "rx \<Rightarrow> jsstring \<Rightarrow> bool" where
  "test r s = (exec r s \<noteq> None)"

subsection \<open>Building patterns\<close>

definition lit :: "char \<Rightarrow> rx" where
  "lit c = Atom (\<lambda>x. x = of_char c)"

definition liti :: "char \<Rightarrow> rx" where
  "liti c = Atom (\<lambda>x. toUpper x = toUpper (of_char c))"

definition seq :: "rx list \<Rightarrow> rx" where
  "seq rs = foldr Seq rs Eps"

definition str :: "string \<Rightarrow> rx" where
  "str s = seq (map lit s)"

definition stri :: "string \<Rightarrow> rx" where
  "stri s = seq (map liti s)"

definition digitOrComma :: "cunit \<Rightarrow> bool" where
  "digitOrComma c = (isDigit c \<or> c = 44)"

definition plusOrMinus :: "cunit \<Rightarrow> bool" where
  "plusOrMinus c = (c = 43 \<or> c = 45)"

section \<open>The parser\<close>

datatype status = idle | active | error | manual

record CycleEntry =
  cycle :: "jsnum option"
  status :: status
  message :: jsstring
  timestamp :: jsstring
  heartbeat :: "jsnum option"
  balance :: "jsnum option"
  balanceDelta :: "jsnum option"
  events :: "jsstring list"

text \<open>\<^verbatim>\<open>/^Cycle\s+(\d+)(?:-\d+)?:/\<close>\<close>

definition cycleRe :: rx where
  "cycleRe = seq [Bol, str ''Cycle'', Plus isSpace, Grp (Plus isDigit),
                  Opt (seq [lit CHR ''-'', Plus isDigit]), lit CHR '':'']"

text \<open>\<^verbatim>\<open>/\bidle\b/i\<close>\<close>

definition idleRe :: rx where
  "idleRe = seq [WordB, stri ''idle'', WordB]"

text \<open>\<^verbatim>\<open>/\b(fail|error|blocked)\b/i\<close>\<close>

definition errorRe :: rx where
  "errorRe = seq [WordB, Grp (Alt (stri ''fail'') (Alt (stri ''error'') (stri ''blocked''))),
                  WordB]"

text \<open>\<^verbatim>\<open>/heartbeat\s+#(\d+)/i\<close>\<close>

definition hbRe :: rx where
  "hbRe = seq [stri ''heartbeat'', Plus isSpace, lit CHR ''#'', Grp (Plus isDigit)]"

text \<open>\<^verbatim>\<open>/balance\s+([\d,]+)\s*sats/i\<close>\<close>

definition balRe :: rx where
  "balRe = seq [stri ''balance'', Plus isSpace, Grp (Plus digitOrComma), Star isSpace,
                stri ''sats'']"

text \<open>\<^verbatim>\<open>/\(([+-]\d[\d,]*)\)/\<close>\<close>

definition deltaRe :: rx where
  "deltaRe = seq [lit CHR ''('', Grp (seq [Atom plusOrMinus, Atom isDigit, Star digitOrComma]),
                  lit CHR '')'']"

text \<open>The four shapes of a comma segment that is not an event.\<close>

text \<open>\<^verbatim>\<open>/^idle$/i\<close>\<close>

definition partIdleRe :: rx where
  "partIdleRe = seq [Bol, stri ''idle'', Eol]"

text \<open>\<^verbatim>\<open>/^heartbeat\s+#\d+$/i\<close>\<close>

definition partHbRe :: rx where
  "partHbRe = seq [Bol, stri ''heartbeat'', Plus isSpace, lit CHR ''#'', Plus isDigit, Eol]"

text \<open>\<^verbatim>\<open>/^balance\s+[\d,]+\s*sats(\s*\([+-][\d,]+\))?$/i\<close>\<close>

definition partBalRe :: rx where
  "partBalRe = seq [Bol, stri ''balance'', Plus isSpace, Plus digitOrComma, Star isSpace,
                    stri ''sats'',
                    Opt (Grp (seq [Star isSpace, lit CHR ''('', Atom plusOrMinus,
                                   Plus digitOrComma, lit CHR '')''])),
                    Eol]"

text \<open>\<^verbatim>\<open>/^GitHub clean$/i\<close>\<close>

definition partCleanRe :: rx where
  "partCleanRe = seq [Bol, stri ''GitHub clean'', Eol]"

text \<open>The loop over the comma segments of the body: the segments kept as events.\<close>

fun eventParts :: "jsstring list \<Rightarrow> jsstring list" where
  "eventParts [] = []"
| "eventParts (part # parts) =
     (if test partIdleRe part then eventParts parts
      else if test partHbRe part then eventParts parts
      else if test partBalRe part then eventParts parts
      else if test partCleanRe part then eventParts parts
      else if length part > 0 then part # eventParts parts
      else eventParts parts)"

text \<open>\<open>parseInt(match[1])\<close>, for a group that may not have taken part in the match.\<close>

definition parseGroup :: "jsstring option \<Rightarrow> jsnum" where
  "parseGroup g = (case g of None \<Rightarrow> NaN | Some s \<Rightarrow> parseInt s)"

text \<open>\<open>msg.slice(cycleMatch[0].length).trim()\<close>\<close>

definition bodyOf :: "rmatch \<Rightarrow> jsstring \<Rightarrow> jsstring" where
  "bodyOf cycleMatch msg = trim (drop (length (matched cycleMatch)) msg)"

definition parseCommit :: "jsstring \<Rightarrow> jsstring \<Rightarrow> CycleEntry" where
  "parseCommit msg ts =
     (let entry = \<lparr>cycle = None, status = manual, message = firstLine msg, timestamp = ts,
                   heartbeat = None, balance = None, balanceDelta = None, events = []\<rparr>
      in case exec cycleRe msg of
           None \<Rightarrow> entry\<lparr>events := events entry @ [firstLine msg]\<rparr>
         | Some cycleMatch \<Rightarrow>
             (let body = bodyOf cycleMatch msg;
                  entry = entry\<lparr>cycle := Some (parseGroup (group1 cycleMatch))\<rparr>;
                  entry = entry\<lparr>status :=
                            (if test idleRe body then idle
                             else if test errorRe body then error
                             else active)\<rparr>;
                  entry = (case exec hbRe body of
                             None \<Rightarrow> entry
                           | Some hbMatch \<Rightarrow>
                               entry\<lparr>heartbeat := Some (parseGroup (group1 hbMatch))\<rparr>);
                  entry = (case exec balRe body of
                             None \<Rightarrow> entry
                           | Some balMatch \<Rightarrow>
                               entry\<lparr>balance :=
                                 Some (parseGroup (map_option stripCommas (group1 balMatch)))\<rparr>);
                  entry = (case exec deltaRe body of
                             None \<Rightarrow> entry
                           | Some deltaMatch \<Rightarrow>
                               entry\<lparr>balanceDelta :=
                                 Some (parseGroup (map_option stripCommas (group1 deltaMatch)))\<rparr>);
                  parts = map trim (split 44 body)
              in entry\<lparr>events := events entry @ eventParts parts\<rparr>))"

section \<open>Grouping and summarising\<close>

record Commit =
  sha :: jsstring
  commitMessage :: jsstring
  authorDate :: jsstring

text \<open>
  A \<open>Map\<close> with string keys, as the list of its entries in insertion order; a key
  occurs once.
\<close>

type_synonym 'v jsmap = "(jsstring \<times> 'v) list"

fun mapGet :: "'v jsmap \<Rightarrow> jsstring \<Rightarrow> 'v option" where
  "mapGet [] k = None"
| "mapGet ((k', v) # es) k = (if k' = k then Some v else mapGet es k)"

definition mapHas :: "'v jsmap \<Rightarrow> jsstring \<Rightarrow> bool" where
  "mapHas mp k = (mapGet mp k \<noteq> None)"

fun mapSet :: "'v jsmap \<Rightarrow> jsstring \<Rightarrow> 'v \<Rightarrow> 'v jsmap" where
  "mapSet [] k v = [(k, v)]"
| "mapSet ((k', v') # es) k v = (if k' = k then (k, v) # es else (k', v') # mapSet es k v)"

text \<open>One turn of the loop of \<open>groupByDay\<close>; \<open>push\<close> extends the array stored in the map.\<close>

definition groupStep :: "(CycleEntry list) jsmap \<Rightarrow> Commit \<Rightarrow> (CycleEntry list) jsmap" where
  "groupStep days c =
     (let ts = authorDate c;
          date = take 10 ts;
          entry = parseCommit (commitMessage c) ts;
          days = (if \<not> mapHas days date then mapSet days date [] else days)
      in case mapGet days date of
           None \<Rightarrow> days
         | Some es \<Rightarrow> mapSet days date (es @ [entry]))"

definition groupByDay :: "Commit list \<Rightarrow> (CycleEntry list) jsmap" where
  "groupByDay commits = foldl groupStep [] (rev commits)"

text \<open>
  The summary of a day. The fields \<open>balanceDelta\<close> and \<open>events\<close> of the source are
  \<open>dayBalanceDelta\<close> and \<open>dayEvents\<close> here, the names being taken by the cycle entry.
\<close>

record DaySummary =
  date :: jsstring
  cycles :: "CycleEntry list"
  totalCycles :: nat
  activeCycles :: nat
  idleCycles :: nat
  errorCycles :: nat
  manualCommits :: nat
  balanceStart :: "jsnum option"
  balanceEnd :: "jsnum option"
  dayBalanceDelta :: "jsnum option"
  heartbeatStart :: "jsnum option"
  heartbeatEnd :: "jsnum option"
  dayEvents :: "jsstring list"

text \<open>The local variables of \<open>summarizeDay\<close>.\<close>

record sumVars =
  countIdle :: nat
  countActive :: nat
  countError :: nat
  countManual :: nat
  allEvents :: "jsstring list"
  vBalanceStart :: "jsnum option"
  vBalanceEnd :: "jsnum option"
  vHeartbeatStart :: "jsnum option"
  vHeartbeatEnd :: "jsnum option"

definition sumInit :: sumVars where
  "sumInit = \<lparr>countIdle = 0, countActive = 0, countError = 0, countManual = 0,
              allEvents = [], vBalanceStart = None, vBalanceEnd = None,
              vHeartbeatStart = None, vHeartbeatEnd = None\<rparr>"

definition bump :: "status \<Rightarrow> sumVars \<Rightarrow> sumVars" where
  "bump st v =
     (case st of
        idle \<Rightarrow> v\<lparr>countIdle := countIdle v + 1\<rparr>
      | active \<Rightarrow> v\<lparr>countActive := countActive v + 1\<rparr>
      | error \<Rightarrow> v\<lparr>countError := countError v + 1\<rparr>
      | manual \<Rightarrow> v\<lparr>countManual := countManual v + 1\<rparr>)"

definition sumStep :: "sumVars \<Rightarrow> CycleEntry \<Rightarrow> sumVars" where
  "sumStep v c =
     (let v = bump (status c) v;
          v = v\<lparr>allEvents := allEvents v @ events c\<rparr>;
          v = (case balance c of
                 None \<Rightarrow> v
               | Some b \<Rightarrow>
                   v\<lparr>vBalanceStart := (if vBalanceStart v = None then Some b
                                         else vBalanceStart v),
                      vBalanceEnd := Some b\<rparr>)
      in case heartbeat c of
           None \<Rightarrow> v
         | Some h \<Rightarrow>
             v\<lparr>vHeartbeatStart := (if vHeartbeatStart v = None then Some h
                                     else vHeartbeatStart v),
                vHeartbeatEnd := Some h\<rparr>)"

definition summarizeDay :: "jsstring \<Rightarrow> CycleEntry list \<Rightarrow> DaySummary" where
  "summarizeDay d cs =
     (let v = foldl sumStep sumInit cs
      in \<lparr>date = d, cycles = cs,
          totalCycles = countIdle v + countActive v + countError v,
          activeCycles = countActive v,
          idleCycles = countIdle v,
          errorCycles = countError v,
          manualCommits = countManual v,
          balanceStart = vBalanceStart v,
          balanceEnd = vBalanceEnd v,
          dayBalanceDelta =
            (case (vBalanceStart v, vBalanceEnd v) of
               (Some s, Some e) \<Rightarrow> Some (jsub e s)
             | _ \<Rightarrow> None),
          heartbeatStart = vHeartbeatStart v,
          heartbeatEnd = vHeartbeatEnd v,
          dayEvents = allEvents v\<rparr>)"

text \<open>
  \<open>getDaySummaries\<close> reads the clock and the network. The model takes what they give:
  \<open>daysAgo x\<close>, what the call \<open>daysAgo(x)\<close> does (it returns a date key, or
  \<open>toISOString\<close> throws a \<open>RangeError\<close> on an invalid date), and the commits that
  \<open>fetchCommits\<close> resolves to. The call \<open>daysAgo(n)\<close> comes first; then the loop runs
  while \<open>i < n\<close>, which is false for \<open>NaN\<close>.
\<close>

definition recordsOf :: "(CycleEntry list) jsmap \<Rightarrow> jsstring \<Rightarrow> CycleEntry list" where
  "recordsOf grouped d = (case mapGet grouped d of None \<Rightarrow> [] | Some cs \<Rightarrow> cs)"

function summariesLoop ::
  "(jsnum \<Rightarrow> jserror + jsstring) \<Rightarrow> (CycleEntry list) jsmap \<Rightarrow> jsnum \<Rightarrow> nat
     \<Rightarrow> DaySummary list \<Rightarrow> DaySummary list outcome" where
  "summariesLoop daysAgo grouped n i summaries =
     (case jlt (Num (int i)) n of
        None \<Rightarrow> Undetermined
      | Some False \<Rightarrow> Ok summaries
      | Some True \<Rightarrow>
          (case daysAgo (Num (int i)) of
             Inl e \<Rightarrow> Throws e
           | Inr d \<Rightarrow>
               (let cs = recordsOf grouped d
                in if length cs = 0 \<and> i > 0
                   then summariesLoop daysAgo grouped n (i + 1) summaries
                   else summariesLoop daysAgo grouped n (i + 1)
                          (summaries @ [summarizeDay d cs]))))"
  by pat_completeness auto
termination
  by (relation "measure (\<lambda>(daysAgo, grouped, n, i, summaries).
                  case n of Num k \<Rightarrow> nat k - i | _ \<Rightarrow> 0)")
     (auto split: jsnum.splits if_splits)

declare summariesLoop.simps [simp del]

definition getDaySummaries ::
  "(jsnum \<Rightarrow> jserror + jsstring) \<Rightarrow> Commit list \<Rightarrow> jsnum \<Rightarrow> DaySummary list outcome" where
  "getDaySummaries daysAgo commits n =
     (case daysAgo n of
        Inl e \<Rightarrow> Throws e
      | Inr since \<Rightarrow> summariesLoop daysAgo (groupByDay commits) n 0 [])"

section \<open>The narrative\<close>

text \<open>
  \<open>narrateDay\<close> pushes up to five clauses and joins them with a space. Each block of the
  source that pushes is a function here, giving the clauses it pushes. The text of
  \<open>toLocaleString\<close> depends on the locale of the host and is the parameter \<open>loc\<close>,
  applied to known numbers only. Reading \<open>balanceEnd!\<close> when it is \<open>null\<close> throws a
  \<open>TypeError\<close>. The counts of a summary are natural numbers.
\<close>

definition countText :: "nat \<Rightarrow> jsstring option" where
  "countText n = numToString (num (int n))"

definition cyclesClause :: "DaySummary \<Rightarrow> jsstring list outcome" where
  "cyclesClause day =
     (if totalCycles day = 0 \<and> manualCommits day > 0 then
        (case countText (manualCommits day) of
           None \<Rightarrow> Undetermined
         | Some mc \<Rightarrow>
             Ok [mc @ jsstr '' manual action''
                   @ (if manualCommits day > 1 then jsstr ''s'' else [])
                   @ jsstr '' logged (no autonomous cycles).''])
      else if activeCycles day > 0 \<and> idleCycles day > 0 then
        (case (countText (totalCycles day), countText (activeCycles day),
               countText (idleCycles day)) of
           (Some tc, Some ac, Some ic) \<Rightarrow>
             Ok [jsstr ''Ran '' @ tc @ jsstr '' cycles &mdash; '' @ ac @ jsstr '' active, ''
                   @ ic @ jsstr '' on standby.'']
         | _ \<Rightarrow> Undetermined)
      else if activeCycles day = 0 then
        (case countText (totalCycles day) of
           None \<Rightarrow> Undetermined
         | Some tc \<Rightarrow>
             Ok [jsstr ''Ran '' @ tc
                   @ jsstr '' cycles, all on standby watching for messages and tasks.''])
      else
        (case countText (totalCycles day) of
           None \<Rightarrow> Undetermined
         | Some tc \<Rightarrow> Ok [jsstr ''Ran '' @ tc @ jsstr '' cycles, all active.'']))"

definition errorClause :: "DaySummary \<Rightarrow> jsstring list outcome" where
  "errorClause day =
     (if errorCycles day > 0 then
        (case countText (errorCycles day) of
           None \<Rightarrow> Undetermined
         | Some ec \<Rightarrow>
             Ok [jsstr ''Hit '' @ ec @ jsstr '' issue''
                   @ (if errorCycles day > 1 then jsstr ''s'' else [])
                   @ jsstr '' (see details below).''])
      else Ok [])"

text \<open>The third branch of the balance block: \<open>else if (day.balanceEnd !== null)\<close>.\<close>

definition balanceSteady :: "(jsnum \<Rightarrow> jsstring) \<Rightarrow> DaySummary \<Rightarrow> jsstring list outcome" where
  "balanceSteady loc day =
     (case balanceEnd day of
        None \<Rightarrow> Ok []
      | Some e \<Rightarrow>
          if known e then Ok [jsstr ''Balance steady at '' @ loc e @ jsstr '' sats.'']
          else Undetermined)"

definition balanceClause :: "(jsnum \<Rightarrow> jsstring) \<Rightarrow> DaySummary \<Rightarrow> jsstring list outcome" where
  "balanceClause loc day =
     (case dayBalanceDelta day of
        None \<Rightarrow> balanceSteady loc day
      | Some delta \<Rightarrow>
          (case jgt delta (Num 0) of
             None \<Rightarrow> Undetermined
           | Some True \<Rightarrow>
               (case balanceEnd day of
                  None \<Rightarrow> Throws TypeError
                | Some e \<Rightarrow>
                    if known e
                    then Ok [jsstr ''Balance grew by '' @ loc delta @ jsstr '' sats to '' @ loc e
                               @ jsstr '' sats.'']
                    else Undetermined)
           | Some False \<Rightarrow>
               (case jlt delta (Num 0) of
                  None \<Rightarrow> Undetermined
                | Some True \<Rightarrow>
                    (case balanceEnd day of
                       None \<Rightarrow> Throws TypeError
                     | Some e \<Rightarrow>
                         if known e
                         then Ok [jsstr ''Spent '' @ loc (jabs delta)
                                    @ jsstr '' sats &mdash; balance now '' @ loc e
                                    @ jsstr '' sats.'']
                         else Undetermined)
                | Some False \<Rightarrow> balanceSteady loc day)))"

definition heartbeatClause :: "DaySummary \<Rightarrow> jsstring list outcome" where
  "heartbeatClause day =
     (case (heartbeatStart day, heartbeatEnd day) of
        (Some hs, Some he) \<Rightarrow>
          (let hbCount = jadd (jsub he hs) (Num 1)
           in case jgt hbCount (Num 1) of
                None \<Rightarrow> Undetermined
              | Some True \<Rightarrow>
                  (case numToString hbCount of
                     None \<Rightarrow> Undetermined
                   | Some t \<Rightarrow> Ok [jsstr ''Sent '' @ t @ jsstr '' heartbeats to AIBTC.''])
              | Some False \<Rightarrow> Ok [jsstr ''Sent 1 heartbeat to AIBTC.''])
      | _ \<Rightarrow> Ok [])"

text \<open>
  \<open>[...new Set(xs)]\<close>: a set keeps its elements in the order of their first insertion.
\<close>

definition setAdd :: "jsstring list \<Rightarrow> jsstring \<Rightarrow> jsstring list" where
  "setAdd st x = (if x \<in> set st then st else st @ [x])"

definition uniqueOf :: "jsstring list \<Rightarrow> jsstring list" where
  "uniqueOf xs = foldl setAdd [] xs"

definition notableClause :: "DaySummary \<Rightarrow> jsstring list" where
  "notableClause day =
     (if length (dayEvents day) > 0 then
        (let unique = uniqueOf (dayEvents day)
         in if length unique \<le> 3
            then [jsstr ''Notable: '' @ joinWith (jsstr ''. '') unique @ jsstr ''.'']
            else [jsstr ''Notable: '' @ joinWith (jsstr ''. '') (take 3 unique)
                    @ jsstr '', and '' @ natToString (length unique - 3)
                    @ jsstr '' more.''])
      else [])"

definition narrateDay :: "(jsnum \<Rightarrow> jsstring) \<Rightarrow> DaySummary \<Rightarrow> jsstring outcome" where
  "narrateDay loc day =
     (if totalCycles day = 0 \<and> manualCommits day = 0
      then Ok (jsstr ''No recorded activity this day.'')
      else andThen (cyclesClause day) (\<lambda>cc.
           andThen (errorClause day) (\<lambda>ec.
           andThen (balanceClause loc day) (\<lambda>bc.
           andThen (heartbeatClause day) (\<lambda>hc.
             Ok (joinWith (jsstr '' '') (cc @ ec @ bc @ hc @ notableClause day)))))))"

section \<open>The properties in the words of the specification\<close>

text \<open>
  The cycle prefix: the text starts with \<open>Cycle\<close>, white space, an integer, optionally
  a hyphen and a second integer, and a colon.
\<close>

definition isInteger :: "jsstring \<Rightarrow> bool" where
  "isInteger ds = (ds \<noteq> [] \<and> list_all isDigit ds)"

definition cyclePrefix :: "jsstring \<Rightarrow> bool" where
  "cyclePrefix t =
     (\<exists>ws n rng tl. t = jsstr ''Cycle'' @ ws @ n @ rng @ jsstr '':'' @ tl
        \<and> ws \<noteq> [] \<and> list_all isSpace ws \<and> isInteger n
        \<and> (rng = [] \<or> (\<exists>k. rng = jsstr ''-'' @ k \<and> isInteger k)))"

text \<open>
  A text contains a word, case-insensitively and between word boundaries: some
  occurrence of the word, in any mix of cases, has no word character just before it and
  none just after it.
\<close>

definition ciMatch :: "string \<Rightarrow> jsstring \<Rightarrow> bool" where
  "ciMatch w t = (map toUpper t = map toUpper (jsstr w))"

definition endsInWordChar :: "jsstring \<Rightarrow> bool" where
  "endsInWordChar pre = (pre \<noteq> [] \<and> isWordChar (last pre))"

definition startsWithWordChar :: "jsstring \<Rightarrow> bool" where
  "startsWithWordChar post = (post \<noteq> [] \<and> isWordChar (hd post))"

definition containsWord :: "string \<Rightarrow> jsstring \<Rightarrow> bool" where
  "containsWord w body =
     (\<exists>pre mid post. body = pre @ mid @ post \<and> ciMatch w mid
        \<and> \<not> endsInWordChar pre \<and> \<not> startsWithWordChar post)"

text \<open>
  A text contains a parenthesized signed number: an opening parenthesis, a sign, a
  digit, digits or commas, a closing parenthesis.
\<close>

definition hasSignedParen :: "jsstring \<Rightarrow> bool" where
  "hasSignedParen body =
     (\<exists>pre sg d ds post. body = pre @ jsstr ''('' @ sg # d # ds @ jsstr '')'' @ post
        \<and> plusOrMinus sg \<and> isDigit d \<and> list_all digitOrComma ds)"

text \<open>Removing duplicates, keeping the first occurrence of each element in its place.\<close>

fun dedupFirst :: "jsstring list \<Rightarrow> jsstring list" where
  "dedupFirst [] = []"
| "dedupFirst (x # xs) = x # dedupFirst (filter (\<lambda>y. y \<noteq> x) xs)"

definition endsWith :: "jsstring \<Rightarrow> jsstring \<Rightarrow> bool" where
  "endsWith s suffix = (length suffix \<le> length s \<and> drop (length s - length suffix) s = suffix)"

text \<open>
  The heartbeat sentence for a count: singular wording for the count 1, plural wording
  for any other count.
\<close>

definition heartbeatText :: "int \<Rightarrow> jsstring" where
  "heartbeatText n =
     (if n = 1 then jsstr ''Sent 1 heartbeat to AIBTC.''
      else jsstr ''Sent '' @ intToString n @ jsstr '' heartbeats to AIBTC.'')"

text \<open>The summary with all counts zero and all optional fields absent.\<close>

definition zeroSummary :: "jsstring \<Rightarrow> DaySummary" where
  "zeroSummary d = \<lparr>date = d, cycles = [], totalCycles = 0, activeCycles = 0, idleCycles = 0,
     errorCycles = 0, manualCommits = 0, balanceStart = None, balanceEnd = None,
     dayBalanceDelta = None, heartbeatStart = None, heartbeatEnd = None, dayEvents = []\<rparr>"

text \<open>
  The records of a day: the commits whose time stamp starts with the date key, oldest
  first, each parsed.
\<close>

definition entryOf :: "Commit \<Rightarrow> CycleEntry" where
  "entryOf c = parseCommit (commitMessage c) (authorDate c)"

definition dateOf :: "Commit \<Rightarrow> jsstring" where
  "dateOf c = take 10 (authorDate c)"

definition dayRecords :: "Commit list \<Rightarrow> jsstring \<Rightarrow> CycleEntry list" where
  "dayRecords commits d = map entryOf (filter (\<lambda>c. dateOf c = d) (rev commits))"

section \<open>Notions used in the proofs\<close>

text \<open>The state \<open>n\<close> code units further on, and the state with the capture group set.\<close>

definition adv :: "nat \<Rightarrow> mstate \<Rightarrow> mstate" where
  "adv n x = MState (rev (take n (rest x)) @ before x) (drop n (rest x)) (grp x)"

definition setGrp :: "mstate \<Rightarrow> mstate \<Rightarrow> mstate" where
  "setGrp x y = MState (before y) (rest y)
                  (Some (rev (take (length (before y) - length (before x)) (before y))))"

fun firstSome :: "('a \<Rightarrow> 'b option) \<Rightarrow> 'a list \<Rightarrow> 'b option" where
  "firstSome k [] = None"
| "firstSome k (y # ys) = (case k y of Some z \<Rightarrow> Some z | None \<Rightarrow> firstSome k ys)"

fun ends :: "rx \<Rightarrow> mstate \<Rightarrow> mstate list" where
  "ends Eps x = [x]"
| "ends (Atom p) x = (case rest x of [] \<Rightarrow> [] | c # cs \<Rightarrow> if p c then [adv 1 x] else [])"
| "ends (Star p) x = map (\<lambda>n. adv n x) (rev [0..<Suc (length (takeWhile p (rest x)))])"
| "ends (Plus p) x = map (\<lambda>n. adv n x) (rev [1..<Suc (length (takeWhile p (rest x)))])"
| "ends (Seq a b) x = concat (map (ends b) (ends a x))"
| "ends (Alt a b) x = ends a x @ ends b x"
| "ends (Opt a) x = filter (\<lambda>y. length (rest y) < length (rest x)) (ends a x) @ [x]"
| "ends (Grp a) x = map (setGrp x) (ends a x)"
| "ends Bol x = (if before x = [] then [x] else [])"
| "ends Eol x = (if rest x = [] then [x] else [])"
| "ends WordB x = (if atWordBoundary x then [x] else [])"

text \<open>\<^verbatim>\<open>/\bw\b/i\<close> for a word \<open>w\<close>\<close>

definition wordRe :: "string \<Rightarrow> rx" where
  "wordRe w = seq [WordB, stri w, WordB]"

text \<open>
  A pattern without assertions, and the set of texts it matches, whatever surrounds
  them.
\<close>

definition conc :: "jsstring set \<Rightarrow> jsstring set \<Rightarrow> jsstring set" where
  "conc A B = {u @ v | u v. u \<in> A \<and> v \<in> B}"

fun plain :: "rx \<Rightarrow> bool" where
  "plain (Seq a b) = (plain a \<and> plain b)"
| "plain (Alt a b) = (plain a \<and> plain b)"
| "plain (Opt a) = plain a"
| "plain (Grp a) = plain a"
| "plain Bol = False"
| "plain Eol = False"
| "plain WordB = False"
| "plain _ = True"

fun lang :: "rx \<Rightarrow> jsstring set" where
  "lang Eps = {[]}"
| "lang (Atom p) = {[c] | c. p c}"
| "lang (Star p) = {u. list_all p u}"
| "lang (Plus p) = {u. u \<noteq> [] \<and> list_all p u}"
| "lang (Seq a b) = conc (lang a) (lang b)"
| "lang (Alt a b) = lang a \<union> lang b"
| "lang (Opt a) = lang a \<union> {[]}"
| "lang (Grp a) = lang a"
| "lang Bol = {}"
| "lang Eol = {}"
| "lang WordB = {}"

text \<open>The cycle pattern after its \<open>^\<close>.\<close>

definition cycleBody :: rx where
  "cycleBody = seq [str ''Cycle'', Plus isSpace, Grp (Plus isDigit),
                    Opt (seq [lit CHR ''-'', Plus isDigit]), lit CHR '':'']"

text \<open>The invariant of the loop of \<open>summarizeDay\<close>: a start is set exactly when its end is.\<close>

definition paired :: "sumVars \<Rightarrow> bool" where
  "paired v = ((vBalanceStart v = None) = (vBalanceEnd v = None)
             \<and> (vHeartbeatStart v = None) = (vHeartbeatEnd v = None))"

section \<open>Evaluating patterns on concrete texts\<close>

lemmas rx_defs = exec_def test_def cycleRe_def idleRe_def errorRe_def hbRe_def balRe_def deltaRe_def
  seq_def str_def stri_def lit_def liti_def jsstr_def isSpace_def isDigit_def isWordChar_def
  toUpper_def digitOrComma_def plusOrMinus_def atWordBoundary_def

section \<open>The matcher as a list of successes\<close>

text \<open>
  \<open>ends r x\<close> lists, in the order the backtracking matcher tries them, the states in
  which a match of \<open>r\<close> from \<open>x\<close> can end; the matcher with continuation \<open>k\<close> returns
  the first of them that \<open>k\<close> accepts.
\<close>

lemma firstSome_append:
  "firstSome k (xs @ ys) = (case firstSome k xs of Some z \<Rightarrow> Some z | None \<Rightarrow> firstSome k ys)"
  by (induction xs) (auto split: option.splits)

lemma firstSome_concat:
  "firstSome k (concat xss) = firstSome (\<lambda>xs. firstSome k xs) xss"
  by (induction xss) (auto simp: firstSome_append split: option.splits)

lemma firstSome_map: "firstSome k (map f xs) = firstSome (\<lambda>x. k (f x)) xs"
  by (induction xs) (auto split: option.splits)

lemma firstSome_filter:
  "firstSome k (filter P xs) = firstSome (\<lambda>x. if P x then k x else None) xs"
  by (induction xs) (auto split: option.splits)

lemma rev_upt_Suc: "rev [0..<Suc (Suc n)] = map Suc (rev [0..<Suc n]) @ [0]"
proof -
  have "[0..<Suc (Suc n)] = 0 # map Suc [0..<Suc n]"
    by (subst upt_rec) (simp add: map_Suc_upt del: upt_Suc)
  then show ?thesis by (simp only: rev.simps rev_map)
qed

lemma rep_firstSome:
  "rep p bef rs g k =
     firstSome k (map (\<lambda>n. MState (rev (take n rs) @ bef) (drop n rs) g)
                    (rev [0..<Suc (length (takeWhile p rs))]))"
proof (induction rs arbitrary: bef)
  case Nil
  show ?case by (simp split: option.splits)
next
  case (Cons c cs)
  show ?case
  proof (cases "p c")
    case False
    then show ?thesis by (simp split: option.splits)
  next
    case True
    let ?L = "length (takeWhile p cs)"
    have len: "length (takeWhile p (c # cs)) = Suc ?L"
      using True by simp
    have idx: "rev [0..<Suc (length (takeWhile p (c # cs)))] = map Suc (rev [0..<Suc ?L]) @ [0]"
      by (simp only: len rev_upt_Suc)
    have lst: "map (\<lambda>n. MState (rev (take n (c # cs)) @ bef) (drop n (c # cs)) g)
                 (rev [0..<Suc (length (takeWhile p (c # cs)))])
             = map (\<lambda>n. MState (rev (take n cs) @ c # bef) (drop n cs) g) (rev [0..<Suc ?L])
               @ [MState bef (c # cs) g]"
      by (simp only: idx) (simp add: o_def del: upt_Suc)
    have "rep p bef (c # cs) g k =
            (case rep p (c # bef) cs g k of Some r \<Rightarrow> Some r
             | None \<Rightarrow> k (MState bef (c # cs) g))"
      using True by simp
    also have "rep p (c # bef) cs g k =
      firstSome k (map (\<lambda>n. MState (rev (take n cs) @ c # bef) (drop n cs) g)
                    (rev [0..<Suc ?L]))"
      by (rule Cons.IH)
    finally show ?thesis
      by (simp only: lst firstSome_append) (simp split: option.splits)
  qed
qed

lemma m_firstSome: "m r x k = firstSome k (ends r x)"
proof (induction r arbitrary: x k)
  case (Star p)
  show ?case by (simp add: rep_firstSome adv_def)
next
  case (Plus p)
  show ?case
  proof (cases "rest x")
    case Nil
    then show ?thesis by simp
  next
    case (Cons c cs)
    show ?thesis
    proof (cases "p c")
      case False
      then show ?thesis using Cons by simp
    next
      case True
      have "[1..<Suc (Suc (length (takeWhile p cs)))] = map Suc [0..<Suc (length (takeWhile p cs))]"
        by (simp only: map_Suc_upt One_nat_def)
      then show ?thesis using Cons True
        by (simp add: rep_firstSome adv_def rev_map firstSome_map o_def del: upt_Suc)
    qed
  qed
next
  case (Seq a b)
  show ?case by (simp add: Seq firstSome_concat firstSome_map o_def)
next
  case (Alt a b)
  show ?case by (simp add: Alt firstSome_append split: option.splits)
next
  case (Opt a)
  show ?case by (simp add: Opt firstSome_append firstSome_filter split: option.splits)
next
  case (Grp a)
  show ?case by (simp add: Grp firstSome_map setGrp_def o_def)
qed (auto simp: adv_def split: list.splits option.splits)

lemma search_None_iff:
  "search r bef rs = None \<longleftrightarrow>
     (\<forall>i\<le>length rs. ends r (MState (rev (take i rs) @ bef) (drop i rs) None) = [])"
proof (induction rs arbitrary: bef)
  case Nil
  show ?case by (cases "ends r (MState bef [] None)") (simp_all add: m_firstSome)
next
  case (Cons c cs)
  have here: "(m r (MState bef (c # cs) None) Some = None) = (ends r (MState bef (c # cs) None) = [])"
    by (cases "ends r (MState bef (c # cs) None)") (simp_all add: m_firstSome)
  have "(\<forall>i\<le>length (c # cs). ends r (MState (rev (take i (c # cs)) @ bef) (drop i (c # cs)) None) = [])
      \<longleftrightarrow> ends r (MState bef (c # cs) None) = []
          \<and> (\<forall>i\<le>length cs. ends r (MState (rev (take i cs) @ c # bef) (drop i cs) None) = [])"
    (is "?L \<longleftrightarrow> ?A \<and> ?B")
  proof
    assume l: ?L
    have ?A using l [rule_format, of 0] by simp
    moreover have ?B
    proof (intro allI impI)
      fix i assume "i \<le> length cs"
      then show "ends r (MState (rev (take i cs) @ c # bef) (drop i cs) None) = []"
        using l [rule_format, of "Suc i"] by simp
    qed
    ultimately show "?A \<and> ?B" ..
  next
    assume ab: "?A \<and> ?B"
    show ?L
    proof (intro allI impI)
      fix i assume "i \<le> length (c # cs)"
      then show "ends r (MState (rev (take i (c # cs)) @ bef) (drop i (c # cs)) None) = []"
        using ab by (cases i) simp_all
    qed
  qed
  moreover have "search r bef (c # cs) = None \<longleftrightarrow>
      m r (MState bef (c # cs) None) Some = None \<and> search r (c # bef) cs = None"
    by (simp split: option.splits)
  ultimately show ?case using here Cons.IH [of "c # bef"]
    by blast
qed

lemma exec_None_iff:
  "exec r s = None \<longleftrightarrow> (\<forall>i\<le>length s. ends r (MState (rev (take i s)) (drop i s) None) = [])"
  using search_None_iff [of r "[]" s] by (simp add: exec_def)

section \<open>Words between word boundaries\<close>

lemma adv_0: "adv 0 x = x"
  by (cases x) (simp add: adv_def)

lemma adv_adv: "adv n (adv (Suc 0) x) = adv (Suc n) x"
  by (cases "rest x") (simp_all add: adv_def)

lemma ends_stri:
  "ends (stri w) x =
     (if length w \<le> length (rest x) \<and> ciMatch w (take (length w) (rest x))
      then [adv (length w) x] else [])"
proof (induction w arbitrary: x)
  case Nil
  show ?case by (simp add: stri_def seq_def ciMatch_def jsstr_def adv_0)
next
  case (Cons a w)
  have unf: "stri (a # w) = Seq (liti a) (stri w)"
    by (simp add: stri_def seq_def)
  show ?case
  proof (cases "rest x")
    case Nil
    then show ?thesis by (simp add: unf liti_def)
  next
    case (Cons c cs)
    have r1: "rest (adv 1 x) = cs" using Cons by (simp add: adv_def)
    show ?thesis using Cons r1 Cons.IH [of "adv 1 x"]
      by (simp add: unf liti_def adv_adv ciMatch_def jsstr_def)
  qed
qed

lemma toUpper_isWordChar: "toUpper a = toUpper b \<Longrightarrow> isWordChar a = isWordChar b"
  by (auto simp: toUpper_def isWordChar_def isDigit_def split: if_splits)

lemma atWordBoundary_MState:
  "atWordBoundary (MState bef rs g) =
     ((bef \<noteq> [] \<and> isWordChar (hd bef)) \<noteq> (rs \<noteq> [] \<and> isWordChar (hd rs)))"
  by (cases bef; cases rs) (simp_all add: atWordBoundary_def)

lemma ends_Seq_WordB: "ends (Seq WordB r) x = (if atWordBoundary x then ends r x else [])"
  by simp

lemma ends_Seq_stri:
  "ends (Seq (stri w) r) x =
     (if length w \<le> length (rest x) \<and> ciMatch w (take (length w) (rest x))
      then ends r (adv (length w) x) else [])"
  by (simp only: ends.simps ends_stri if_distrib [of "map (ends r)"] if_distrib [of concat]
        list.map concat.simps append_Nil2)

lemma ends_WordB_Eps: "ends (Seq WordB Eps) y = (if atWordBoundary y then [y] else [])"
  by simp

lemma ends_wordRe:
  "ends (wordRe w) x =
     (if atWordBoundary x \<and> length w \<le> length (rest x)
         \<and> ciMatch w (take (length w) (rest x)) \<and> atWordBoundary (adv (length w) x)
      then [adv (length w) x] else [])"
proof -
  have "wordRe w = Seq WordB (Seq (stri w) (Seq WordB Eps))"
    by (simp add: wordRe_def seq_def)
  then show ?thesis
    by (simp only: ends_Seq_WordB ends_Seq_stri ends_WordB_Eps) auto
qed

lemma ciMatch_props:
  assumes "ciMatch w mid" and "w \<noteq> []"
    and "isWordChar (of_char (hd w))" and "isWordChar (of_char (last w))"
  shows "length mid = length w" and "mid \<noteq> []" and "isWordChar (hd mid)" and "isWordChar (last mid)"
proof -
  have eq: "map toUpper mid = map toUpper (map of_char w)"
    using assms(1) by (simp add: ciMatch_def jsstr_def)
  have "length (map toUpper mid) = length (map toUpper (map of_char w :: nat list))"
    by (simp only: eq)
  then show len: "length mid = length w" by simp
  then show ne: "mid \<noteq> []" using assms(2) by auto
  have "hd (map toUpper mid) = hd (map toUpper (map of_char w :: nat list))"
    by (simp only: eq)
  then have "toUpper (hd mid) = toUpper (of_char (hd w))"
    using ne assms(2) by (simp add: hd_map)
  then show "isWordChar (hd mid)"
    using assms(3) toUpper_isWordChar by blast
  have "last (map toUpper mid) = last (map toUpper (map of_char w :: nat list))"
    by (simp only: eq)
  then have "toUpper (last mid) = toUpper (of_char (last w))"
    using ne assms(2) by (simp add: last_map)
  then show "isWordChar (last mid)"
    using assms(4) toUpper_isWordChar by blast
qed

lemma word_at:
  assumes "ciMatch w mid" and "w \<noteq> []"
    and "isWordChar (of_char (hd w))" and "isWordChar (of_char (last w))"
  shows "ends (wordRe w) (MState (rev pre) (mid @ post) g) \<noteq> []
         \<longleftrightarrow> \<not> endsInWordChar pre \<and> \<not> startsWithWordChar post"
proof -
  note p = ciMatch_props [OF assms]
  have b1: "atWordBoundary (MState (rev pre) (mid @ post) g) = (\<not> endsInWordChar pre)"
    using p(2,3) by (auto simp: atWordBoundary_MState endsInWordChar_def hd_rev)
  have a: "adv (length w) (MState (rev pre) (mid @ post) g) = MState (rev mid @ rev pre) post g"
    using p(1) by (simp add: adv_def)
  have b2: "atWordBoundary (MState (rev mid @ rev pre) post g) = (\<not> startsWithWordChar post)"
    using p(2,4) by (auto simp: atWordBoundary_MState startsWithWordChar_def hd_rev)
  have t: "take (length w) (mid @ post) = mid" using p(1) by simp
  show ?thesis
    using assms(1) p(1) by (simp only: ends_wordRe a b1 b2 t mstate.sel) auto
qed

lemma test_wordRe:
  assumes "w \<noteq> []" and "isWordChar (of_char (hd w))" and "isWordChar (of_char (last w))"
  shows "test (wordRe w) body \<longleftrightarrow> containsWord w body"
proof
  assume "test (wordRe w) body"
  then obtain i where i: "i \<le> length body"
      and e: "ends (wordRe w) (MState (rev (take i body)) (drop i body) None) \<noteq> []"
    by (auto simp: test_def exec_None_iff)
  let ?pre = "take i body" and ?mid = "take (length w) (drop i body)"
  let ?post = "drop (length w) (drop i body)"
  have cm: "ciMatch w ?mid"
    using e by (auto simp: ends_wordRe split: if_splits)
  have "ends (wordRe w) (MState (rev ?pre) (?mid @ ?post) None) \<noteq> []"
    using e by (simp del: drop_drop)
  then have "\<not> endsInWordChar ?pre \<and> \<not> startsWithWordChar ?post"
    using word_at [OF cm assms] by blast
  moreover have "body = ?pre @ ?mid @ ?post" by (simp del: drop_drop)
  ultimately show "containsWord w body"
    unfolding containsWord_def using cm by blast
next
  assume "containsWord w body"
  then obtain pre mid post where b: "body = pre @ mid @ post" and cm: "ciMatch w mid"
      and bd: "\<not> endsInWordChar pre \<and> \<not> startsWithWordChar post"
    unfolding containsWord_def by blast
  have "ends (wordRe w) (MState (rev pre) (mid @ post) None) \<noteq> []"
    using word_at [OF cm assms] bd by blast
  moreover have "MState (rev (take (length pre) body)) (drop (length pre) body) None
                 = MState (rev pre) (mid @ post) None"
    using b by simp
  moreover have "length pre \<le> length body" using b by simp
  ultimately show "test (wordRe w) body"
    unfolding test_def exec_None_iff by metis
qed

lemma atWordBoundary_setGrp: "atWordBoundary (setGrp x y) = atWordBoundary y"
  by (simp add: atWordBoundary_def setGrp_def)

lemma ends_Seq_nonempty:
  "ends (Seq a b) x \<noteq> [] \<longleftrightarrow> (\<exists>y\<in>set (ends a x). ends b y \<noteq> [])"
  by auto

lemma wordRe_nonempty:
  "ends (wordRe w) x \<noteq> [] \<longleftrightarrow>
     atWordBoundary x \<and> (\<exists>y\<in>set (ends (stri w) x). atWordBoundary y)"
proof -
  have e: "wordRe w = Seq WordB (Seq (stri w) (Seq WordB Eps))"
    by (simp add: wordRe_def seq_def)
  show ?thesis
    unfolding e ends_Seq_nonempty ends_WordB_Eps
    by (cases "atWordBoundary x") simp_all
qed

lemma errorRe_nonempty:
  "ends errorRe x \<noteq> [] \<longleftrightarrow>
     atWordBoundary x
     \<and> (\<exists>y\<in>set (ends (stri ''fail'') x) \<union> set (ends (stri ''error'') x)
             \<union> set (ends (stri ''blocked'') x). atWordBoundary y)"
proof -
  have e: "errorRe = Seq WordB (Seq (Grp (Alt (stri ''fail'') (Alt (stri ''error'') (stri ''blocked''))))
                       (Seq WordB Eps))"
    by (simp add: errorRe_def seq_def)
  show ?thesis
    unfolding e ends_Seq_nonempty ends_WordB_Eps
    by (cases "atWordBoundary x") (simp_all add: atWordBoundary_setGrp Un_assoc bex_Un)
qed

lemma ends_errorRe:
  "ends errorRe x = [] \<longleftrightarrow>
     ends (wordRe ''fail'') x = [] \<and> ends (wordRe ''error'') x = [] \<and> ends (wordRe ''blocked'') x = []"
  using errorRe_nonempty [of x] wordRe_nonempty [of "''fail''" x]
    wordRe_nonempty [of "''error''" x] wordRe_nonempty [of "''blocked''" x]
  by blast

lemma test_errorRe:
  "test errorRe body \<longleftrightarrow>
     containsWord ''fail'' body \<or> containsWord ''error'' body \<or> containsWord ''blocked'' body"
proof -
  have "test errorRe body \<longleftrightarrow>
     test (wordRe ''fail'') body \<or> test (wordRe ''error'') body \<or> test (wordRe ''blocked'') body"
    unfolding test_def exec_None_iff ends_errorRe by blast
  moreover have "test (wordRe ''fail'') body = containsWord ''fail'' body"
    by (rule test_wordRe) (simp_all add: isWordChar_def)
  moreover have "test (wordRe ''error'') body = containsWord ''error'' body"
    by (rule test_wordRe) (simp_all add: isWordChar_def)
  moreover have "test (wordRe ''blocked'') body = containsWord ''blocked'' body"
    by (rule test_wordRe) (simp_all add: isWordChar_def)
  ultimately show ?thesis by simp
qed

lemma test_idleRe: "test idleRe body \<longleftrightarrow> containsWord ''idle'' body"
proof -
  have "idleRe = wordRe ''idle''" by (simp add: idleRe_def wordRe_def)
  moreover have "test (wordRe ''idle'') body = containsWord ''idle'' body"
    by (rule test_wordRe) (simp_all add: isWordChar_def)
  ultimately show ?thesis by simp
qed

section \<open>Patterns without assertions and their languages\<close>

lemma run_prefix:
  "(\<exists>n\<le>length (takeWhile p s). v = drop n s \<and> k \<le> n) \<longleftrightarrow>
   (\<exists>u. list_all p u \<and> s = u @ v \<and> k \<le> length u)"
proof
  assume "\<exists>n\<le>length (takeWhile p s). v = drop n s \<and> k \<le> n"
  then obtain n where n: "n \<le> length (takeWhile p s)" and v: "v = drop n s" and k: "k \<le> n"
    by blast
  have "take n s = take n (takeWhile p s @ dropWhile p s)"
    by (simp only: takeWhile_dropWhile_id)
  also have "\<dots> = take n (takeWhile p s)"
    using n by (simp del: takeWhile_dropWhile_id)
  finally have "set (take n s) \<subseteq> set (takeWhile p s)"
    by (simp add: set_take_subset)
  then have "list_all p (take n s)"
    by (auto simp: list_all_iff dest: set_takeWhileD)
  moreover have "s = take n s @ v" using v by simp
  moreover have "k \<le> length (take n s)"
    using n k length_takeWhile_le [of p s] by simp
  ultimately show "\<exists>u. list_all p u \<and> s = u @ v \<and> k \<le> length u" by blast
next
  assume "\<exists>u. list_all p u \<and> s = u @ v \<and> k \<le> length u"
  then obtain u where u: "list_all p u" and s: "s = u @ v" and k: "k \<le> length u" by blast
  have "takeWhile p (u @ v) = u @ takeWhile p v"
    using u by (simp add: list_all_iff)
  then have "length u \<le> length (takeWhile p s)" using s by simp
  moreover have "v = drop (length u) s" using s by simp
  ultimately show "\<exists>n\<le>length (takeWhile p s). v = drop n s \<and> k \<le> n" using k by blast
qed

lemma rest_adv: "rest (adv n x) = drop n (rest x)"
  by (simp add: adv_def)

lemma rest_setGrp: "rest (setGrp x y) = rest y"
  by (simp add: setGrp_def)

lemma set_ends_Star:
  "set (ends (Star p) x) = {adv n x | n. n \<le> length (takeWhile p (rest x))}"
  by (auto simp del: upt_Suc simp: less_Suc_eq_le)

lemma set_ends_Plus:
  "set (ends (Plus p) x) = {adv n x | n. 1 \<le> n \<and> n \<le> length (takeWhile p (rest x))}"
  by (auto simp del: upt_Suc simp: less_Suc_eq_le)

lemma rest_ends:
  "plain r \<Longrightarrow> rest ` set (ends r x) = {v. \<exists>u\<in>lang r. rest x = u @ v}"
proof (induction r arbitrary: x)
  case Eps
  show ?case by simp
next
  case (Atom p)
  show ?case by (cases "rest x") (auto simp: rest_adv)
next
  case (Star p)
  have "rest ` set (ends (Star p) x)
          = {v. \<exists>n\<le>length (takeWhile p (rest x)). v = drop n (rest x) \<and> 0 \<le> n}"
    unfolding set_ends_Star by (auto simp: rest_adv image_Collect) (metis rest_adv)
  also have "\<dots> = {v. \<exists>u. list_all p u \<and> rest x = u @ v \<and> 0 \<le> length u}"
    by (simp only: run_prefix)
  finally show ?case by auto
next
  case (Plus p)
  have "rest ` set (ends (Plus p) x)
          = {v. \<exists>n\<le>length (takeWhile p (rest x)). v = drop n (rest x) \<and> 1 \<le> n}"
    unfolding set_ends_Plus by (auto simp: rest_adv image_Collect) (metis One_nat_def rest_adv)
  also have "\<dots> = {v. \<exists>u. list_all p u \<and> rest x = u @ v \<and> 1 \<le> length u}"
    by (simp only: run_prefix)
  also have "\<dots> = {v. \<exists>u\<in>lang (Plus p). rest x = u @ v}"
    by (auto simp: Suc_le_eq)
  finally show ?case .
next
  case (Seq a b)
  have pa: "plain a" and pb: "plain b" using Seq.prems by simp_all
  have "rest ` set (ends (Seq a b) x) = (\<Union>y\<in>set (ends a x). rest ` set (ends b y))"
    by auto
  also have "\<dots> = (\<Union>y\<in>set (ends a x). {v. \<exists>u\<in>lang b. rest y = u @ v})"
    by (simp only: Seq.IH(2) [OF pb])
  also have "\<dots> = (\<Union>w\<in>rest ` set (ends a x). {v. \<exists>u\<in>lang b. w = u @ v})"
    by auto
  also have "\<dots> = (\<Union>w\<in>{w. \<exists>u\<in>lang a. rest x = u @ w}. {v. \<exists>u\<in>lang b. w = u @ v})"
    by (simp only: Seq.IH(1) [OF pa])
  also have "\<dots> = {v. \<exists>u\<in>lang (Seq a b). rest x = u @ v}"
    by (fastforce simp: conc_def)
  finally show ?case .
next
  case (Alt a b)
  have pa: "plain a" and pb: "plain b" using Alt.prems by simp_all
  have "rest ` set (ends (Alt a b) x) = rest ` set (ends a x) \<union> rest ` set (ends b x)"
    by auto
  then show ?case
    by (simp only: Alt.IH(1) [OF pa] Alt.IH(2) [OF pb]) auto
next
  case (Opt a)
  have pa: "plain a" using Opt.prems by simp
  have "rest ` set (ends (Opt a) x)
          = {v \<in> rest ` set (ends a x). length v < length (rest x)} \<union> {rest x}"
    by auto
  also have "\<dots> = {v \<in> {v. \<exists>u\<in>lang a. rest x = u @ v}. length v < length (rest x)} \<union> {rest x}"
    by (simp only: Opt.IH [OF pa])
  also have "\<dots> = {v. \<exists>u\<in>lang (Opt a). rest x = u @ v}"
    by auto
  finally show ?case .
next
  case (Grp a)
  have pa: "plain a" using Grp.prems by simp
  have "rest ` set (ends (Grp a) x) = rest ` set (ends a x)"
    by (auto simp: rest_setGrp image_iff)
  then show ?case by (simp add: Grp.IH [OF pa])
qed simp_all

lemma ends_nonempty_lang:
  assumes "plain r"
  shows "ends r x \<noteq> [] \<longleftrightarrow> (\<exists>u v. u \<in> lang r \<and> rest x = u @ v)"
proof -
  have "ends r x \<noteq> [] \<longleftrightarrow> rest ` set (ends r x) \<noteq> {}" by simp
  also have "\<dots> \<longleftrightarrow> (\<exists>u v. u \<in> lang r \<and> rest x = u @ v)"
    unfolding rest_ends [OF assms] by blast
  finally show ?thesis .
qed

lemma exec_plain:
  assumes "plain r"
  shows "exec r t \<noteq> None \<longleftrightarrow> (\<exists>pre u post. t = pre @ u @ post \<and> u \<in> lang r)"
proof
  assume "exec r t \<noteq> None"
  then obtain i where "i \<le> length t"
      and "ends r (MState (rev (take i t)) (drop i t) None) \<noteq> []"
    unfolding exec_None_iff by blast
  then obtain u v where u: "u \<in> lang r" and d: "drop i t = u @ v"
    unfolding ends_nonempty_lang [OF assms] by auto
  have "t = take i t @ u @ v" using d by (metis append_take_drop_id)
  then show "\<exists>pre u post. t = pre @ u @ post \<and> u \<in> lang r" using u by blast
next
  assume "\<exists>pre u post. t = pre @ u @ post \<and> u \<in> lang r"
  then obtain pre u post where t: "t = pre @ u @ post" and u: "u \<in> lang r" by blast
  have "ends r (MState (rev (take (length pre) t)) (drop (length pre) t) None) \<noteq> []"
    unfolding ends_nonempty_lang [OF assms] using t u by auto
  moreover have "length pre \<le> length t" using t by simp
  ultimately show "exec r t \<noteq> None" unfolding exec_None_iff by blast
qed

lemma exec_anchored:
  assumes "plain r"
  shows "exec (Seq Bol r) t \<noteq> None \<longleftrightarrow> (\<exists>u post. t = u @ post \<and> u \<in> lang r)"
proof
  assume "exec (Seq Bol r) t \<noteq> None"
  then obtain i where i: "i \<le> length t"
      and e: "ends (Seq Bol r) (MState (rev (take i t)) (drop i t) None) \<noteq> []"
    unfolding exec_None_iff by blast
  have z: "take i t = []" using e by (auto split: if_splits)
  then have "drop i t = t" by (metis append_take_drop_id append_Nil)
  then have "ends r (MState [] t None) \<noteq> []" using e z by (auto split: if_splits)
  then show "\<exists>u post. t = u @ post \<and> u \<in> lang r"
    unfolding ends_nonempty_lang [OF assms] by auto
next
  assume "\<exists>u post. t = u @ post \<and> u \<in> lang r"
  then have "ends r (MState [] t None) \<noteq> []"
    unfolding ends_nonempty_lang [OF assms] by auto
  then have "ends (Seq Bol r) (MState (rev (take 0 t)) (drop 0 t) None) \<noteq> []" by simp
  then show "exec (Seq Bol r) t \<noteq> None" unfolding exec_None_iff by blast
qed

lemma lang_lit: "lang (lit c) = {[of_char c]}"
  by (auto simp: lit_def)

lemma lang_str: "lang (str s) = {jsstr s}"
proof (induction s)
  case Nil
  show ?case by (simp add: str_def seq_def jsstr_def)
next
  case (Cons c s)
  have "str (c # s) = Seq (lit c) (str s)" by (simp add: str_def seq_def)
  then show ?case using Cons by (auto simp: lang_lit conc_def jsstr_def)
qed

lemma concI: "u \<in> A \<Longrightarrow> v \<in> B \<Longrightarrow> u @ v \<in> conc A B"
  by (auto simp: conc_def)

lemma concE: "w \<in> conc A B \<Longrightarrow> (\<And>u v. w = u @ v \<Longrightarrow> u \<in> A \<Longrightarrow> v \<in> B \<Longrightarrow> P) \<Longrightarrow> P"
  by (auto simp: conc_def)

lemma cycleRe_body: "cycleRe = Seq Bol cycleBody"
  by (simp add: cycleRe_def cycleBody_def seq_def)

lemma plain_cycleBody: "plain cycleBody"
  by (simp add: cycleBody_def seq_def str_def lit_def)

lemma lang_cycleBody:
  "u \<in> lang cycleBody \<longleftrightarrow>
     (\<exists>ws n rng. u = jsstr ''Cycle'' @ ws @ n @ rng @ jsstr '':''
        \<and> ws \<noteq> [] \<and> list_all isSpace ws \<and> isInteger n
        \<and> (rng = [] \<or> (\<exists>k. rng = jsstr ''-'' @ k \<and> isInteger k)))"
  (is "?L \<longleftrightarrow> ?R")
proof -
  have 1: "lang (Opt (seq [lit CHR ''-'', Plus isDigit]))
             = {rng. rng = [] \<or> (\<exists>k. rng = jsstr ''-'' @ k \<and> isInteger k)}"
    by (auto simp: seq_def lang_lit conc_def isInteger_def jsstr_def)
  have 2: "lang (lit CHR '':'') = {jsstr '':''}"
    by (simp add: lang_lit jsstr_def)
  have 3: "lang (Grp (Plus isDigit)) = {n. isInteger n}"
    by (auto simp: isInteger_def)
  have 4: "lang (Plus isSpace) = {ws. ws \<noteq> [] \<and> list_all isSpace ws}"
    by simp
  have l0: "lang cycleBody =
          conc (lang (str ''Cycle'')) (conc (lang (Plus isSpace)) (conc (lang (Grp (Plus isDigit)))
            (conc (lang (Opt (seq [lit CHR ''-'', Plus isDigit]))) (conc (lang (lit CHR '':'')) {[]}))))"
    by (simp add: cycleBody_def seq_def)
  have l: "lang cycleBody =
          conc {jsstr ''Cycle''} (conc {ws. ws \<noteq> [] \<and> list_all isSpace ws} (conc {n. isInteger n}
            (conc {rng. rng = [] \<or> (\<exists>k. rng = jsstr ''-'' @ k \<and> isInteger k)}
               (conc {jsstr '':''} {[]}))))"
    unfolding l0 1 2 3 4 lang_str ..
  show ?thesis
  proof
    assume ?L
    then show ?R
      unfolding l
      by (elim concE) (simp, blast)
  next
    assume ?R
    then obtain ws n rng where u: "u = jsstr ''Cycle'' @ ws @ n @ rng @ jsstr '':'' @ []"
      and ws: "ws \<in> {ws. ws \<noteq> [] \<and> list_all isSpace ws}" and n: "n \<in> {n. isInteger n}"
      and rng: "rng \<in> {rng. rng = [] \<or> (\<exists>k. rng = jsstr ''-'' @ k \<and> isInteger k)}"
      by auto
    show ?L
      unfolding l u
      by (intro concI ws n rng) simp_all
  qed
qed

lemma exec_cycleRe: "exec cycleRe t \<noteq> None \<longleftrightarrow> cyclePrefix t"
proof -
  have "exec cycleRe t \<noteq> None \<longleftrightarrow> (\<exists>u post. t = u @ post \<and> u \<in> lang cycleBody)"
    unfolding cycleRe_body by (rule exec_anchored [OF plain_cycleBody])
  also have "\<dots> \<longleftrightarrow> cyclePrefix t"
  proof
    assume "\<exists>u post. t = u @ post \<and> u \<in> lang cycleBody"
    then obtain u post ws n rng where "t = u @ post"
      and "u = jsstr ''Cycle'' @ ws @ n @ rng @ jsstr '':''"
      and "ws \<noteq> []" "list_all isSpace ws" "isInteger n"
      and "rng = [] \<or> (\<exists>k. rng = jsstr ''-'' @ k \<and> isInteger k)"
      unfolding lang_cycleBody by blast
    then show "cyclePrefix t"
      unfolding cyclePrefix_def by (intro exI [of _ ws] exI [of _ n] exI [of _ rng] exI [of _ post]) simp
  next
    assume "cyclePrefix t"
    then obtain ws n rng tl where t: "t = jsstr ''Cycle'' @ ws @ n @ rng @ jsstr '':'' @ tl"
      and c: "ws \<noteq> []" "list_all isSpace ws" "isInteger n"
        "rng = [] \<or> (\<exists>k. rng = jsstr ''-'' @ k \<and> isInteger k)"
      unfolding cyclePrefix_def by blast
    have "jsstr ''Cycle'' @ ws @ n @ rng @ jsstr '':'' \<in> lang cycleBody"
      unfolding lang_cycleBody using c by blast
    moreover have "t = (jsstr ''Cycle'' @ ws @ n @ rng @ jsstr '':'') @ tl"
      using t by simp
    ultimately show "\<exists>u post. t = u @ post \<and> u \<in> lang cycleBody" by blast
  qed
  finally show ?thesis .
qed

lemma cyclePrefix_append: "cyclePrefix p \<Longrightarrow> cyclePrefix (p @ q)"
proof -
  assume "cyclePrefix p"
  then obtain ws n rng tl where p: "p = jsstr ''Cycle'' @ ws @ n @ rng @ jsstr '':'' @ tl"
    and c: "ws \<noteq> []" "list_all isSpace ws" "isInteger n"
      "rng = [] \<or> (\<exists>k. rng = jsstr ''-'' @ k \<and> isInteger k)"
    unfolding cyclePrefix_def by blast
  have "p @ q = jsstr ''Cycle'' @ ws @ n @ rng @ jsstr '':'' @ (tl @ q)"
    using p by simp
  then show "cyclePrefix (p @ q)"
    unfolding cyclePrefix_def using c by blast
qed

lemma plain_deltaRe: "plain deltaRe"
  by (simp add: deltaRe_def seq_def lit_def)

lemma lang_deltaRe:
  "u \<in> lang deltaRe \<longleftrightarrow>
     (\<exists>sg d ds. u = jsstr ''('' @ sg # d # ds @ jsstr '')''
        \<and> plusOrMinus sg \<and> isDigit d \<and> list_all digitOrComma ds)"
  (is "?L \<longleftrightarrow> ?R")
proof -
  have l: "lang deltaRe =
             conc {jsstr ''(''}
               (conc (conc {[sg] | sg. plusOrMinus sg}
                        (conc {[d] | d. isDigit d} (conc {ds. list_all digitOrComma ds} {[]})))
                  (conc {jsstr '')''} {[]}))"
    by (simp add: deltaRe_def seq_def lang_lit jsstr_def)
  show ?thesis
  proof
    assume ?L
    then show ?R
      unfolding l by (elim concE) auto
  next
    assume ?R
    then obtain sg d ds where u: "u = jsstr ''('' @ ([sg] @ [d] @ ds @ []) @ jsstr '')'' @ []"
      and sg: "[sg] \<in> {[sg] | sg. plusOrMinus sg}" and d: "[d] \<in> {[d] | d. isDigit d}"
      and ds: "ds \<in> {ds. list_all digitOrComma ds}"
      by auto
    show ?L
      unfolding l u by (intro concI sg d ds) simp_all
  qed
qed

lemma exec_deltaRe: "exec deltaRe body \<noteq> None \<longleftrightarrow> hasSignedParen body"
proof -
  have "exec deltaRe body \<noteq> None \<longleftrightarrow> (\<exists>pre u post. body = pre @ u @ post \<and> u \<in> lang deltaRe)"
    by (rule exec_plain [OF plain_deltaRe])
  also have "\<dots> \<longleftrightarrow> hasSignedParen body"
  proof
    assume "\<exists>pre u post. body = pre @ u @ post \<and> u \<in> lang deltaRe"
    then obtain pre u post sg d ds where "body = pre @ u @ post"
      and "u = jsstr ''('' @ sg # d # ds @ jsstr '')''"
      and "plusOrMinus sg" "isDigit d" "list_all digitOrComma ds"
      unfolding lang_deltaRe by blast
    then show "hasSignedParen body"
      unfolding hasSignedParen_def
      by (intro exI [of _ pre] exI [of _ sg] exI [of _ d] exI [of _ ds] exI [of _ post]) simp
  next
    assume "hasSignedParen body"
    then obtain pre sg d ds post
      where b: "body = pre @ jsstr ''('' @ sg # d # ds @ jsstr '')'' @ post"
        and c: "plusOrMinus sg" "isDigit d" "list_all digitOrComma ds"
      unfolding hasSignedParen_def by blast
    have "jsstr ''('' @ sg # d # ds @ jsstr '')'' \<in> lang deltaRe"
      unfolding lang_deltaRe using c by blast
    moreover have "body = pre @ (jsstr ''('' @ sg # d # ds @ jsstr '')'') @ post"
      using b by simp
    ultimately show "\<exists>pre u post. body = pre @ u @ post \<and> u \<in> lang deltaRe" by blast
  qed
  finally show ?thesis .
qed

section \<open>The fields of a parsed commit\<close>

lemma parseCommit_nomatch:
  "exec cycleRe msg = None \<Longrightarrow>
   parseCommit msg ts = \<lparr>cycle = None, status = manual, message = firstLine msg, timestamp = ts,
     heartbeat = None, balance = None, balanceDelta = None, events = [firstLine msg]\<rparr>"
  by (simp add: parseCommit_def)

lemma parseCommit_status:
  "exec cycleRe msg = Some cm \<Longrightarrow>
   status (parseCommit msg ts) =
     (if test idleRe (bodyOf cm msg) then idle
      else if test errorRe (bodyOf cm msg) then error else active)"
  by (simp add: parseCommit_def Let_def split: option.splits)

lemma parseCommit_cycle:
  "exec cycleRe msg = Some cm \<Longrightarrow> cycle (parseCommit msg ts) = Some (parseGroup (group1 cm))"
  by (simp add: parseCommit_def Let_def split: option.splits)

lemma parseCommit_heartbeat:
  "exec cycleRe msg = Some cm \<Longrightarrow>
   heartbeat (parseCommit msg ts) =
     map_option (\<lambda>hm. parseGroup (group1 hm)) (exec hbRe (bodyOf cm msg))"
  by (simp add: parseCommit_def Let_def split: option.splits)

lemma parseCommit_balance:
  "exec cycleRe msg = Some cm \<Longrightarrow>
   balance (parseCommit msg ts) =
     map_option (\<lambda>bm. parseGroup (map_option stripCommas (group1 bm)))
       (exec balRe (bodyOf cm msg))"
  by (simp add: parseCommit_def Let_def split: option.splits)

lemma parseCommit_balanceDelta:
  "exec cycleRe msg = Some cm \<Longrightarrow>
   balanceDelta (parseCommit msg ts) =
     map_option (\<lambda>dm. parseGroup (map_option stripCommas (group1 dm)))
       (exec deltaRe (bodyOf cm msg))"
  by (simp add: parseCommit_def Let_def split: option.splits)

lemma firstLine_takeWhile: "firstLine msg = takeWhile (\<lambda>c. c \<noteq> 10) msg"
proof -
  have "split 10 msg \<noteq> [] \<and> hd (split 10 msg) = takeWhile (\<lambda>c. c \<noteq> 10) msg"
    by (induction msg) (auto split: list.splits)
  then show ?thesis by (auto simp: firstLine_def split: list.splits)
qed

lemma cyclePrefix_firstLine: "cyclePrefix (firstLine msg) \<Longrightarrow> cyclePrefix msg"
  using cyclePrefix_append [of "takeWhile (\<lambda>c. c \<noteq> 10) msg" "dropWhile (\<lambda>c. c \<noteq> 10) msg"]
  by (simp add: firstLine_takeWhile)

section \<open>The summary of a day\<close>

lemma count_foldl:
  "countIdle (foldl sumStep v cs) = countIdle v + length (filter (\<lambda>c. status c = idle) cs)
 \<and> countActive (foldl sumStep v cs) = countActive v + length (filter (\<lambda>c. status c = active) cs)
 \<and> countError (foldl sumStep v cs) = countError v + length (filter (\<lambda>c. status c = error) cs)
 \<and> countManual (foldl sumStep v cs) = countManual v + length (filter (\<lambda>c. status c = manual) cs)"
proof (induction cs arbitrary: v)
  case Nil
  show ?case by simp
next
  case (Cons c cs)
  have step: "countIdle (sumStep v c) = countIdle v + (if status c = idle then 1 else 0)
    \<and> countActive (sumStep v c) = countActive v + (if status c = active then 1 else 0)
    \<and> countError (sumStep v c) = countError v + (if status c = error then 1 else 0)
    \<and> countManual (sumStep v c) = countManual v + (if status c = manual then 1 else 0)"
    by (cases "status c") (simp_all add: sumStep_def bump_def Let_def split: option.splits)
  show ?case using Cons.IH [of "sumStep v c"] step by simp
qed

lemma filter_status_partition:
  "length (filter (\<lambda>c. status c \<noteq> manual) cs) =
     length (filter (\<lambda>c. status c = idle) cs) + length (filter (\<lambda>c. status c = active) cs)
       + length (filter (\<lambda>c. status c = error) cs)"
proof (induction cs)
  case Nil
  show ?case by simp
next
  case (Cons c cs)
  then show ?case by (cases "status c") simp_all
qed

lemma paired_step: "paired v \<Longrightarrow> paired (sumStep v c)"
  by (cases "status c")
     (auto simp: paired_def sumStep_def bump_def Let_def split: option.splits)

lemma paired_foldl: "paired v \<Longrightarrow> paired (foldl sumStep v cs)"
  by (induction cs arbitrary: v) (simp_all add: paired_step)

lemma paired_init: "paired sumInit"
  by (simp add: paired_def sumInit_def)

lemma summarizeDay_empty:
  "summarizeDay d [] = \<lparr>date = d, cycles = [], totalCycles = 0, activeCycles = 0, idleCycles = 0,
     errorCycles = 0, manualCommits = 0, balanceStart = None, balanceEnd = None,
     dayBalanceDelta = None, heartbeatStart = None, heartbeatEnd = None, dayEvents = []\<rparr>"
  by (simp add: summarizeDay_def sumInit_def)

lemma heartbeat_pair:
  "heartbeatStart (summarizeDay d [a, b])
     = (case heartbeat a of Some h \<Rightarrow> Some h | None \<Rightarrow> heartbeat b)
 \<and> heartbeatEnd (summarizeDay d [a, b])
     = (case heartbeat b of Some h \<Rightarrow> Some h | None \<Rightarrow> heartbeat a)"
  by (cases "status a"; cases "status b")
     (simp_all add: summarizeDay_def sumStep_def sumInit_def bump_def Let_def split: option.splits)

lemma mapGet_mapSet: "mapGet (mapSet mp k v) k' = (if k' = k then Some v else mapGet mp k')"
  by (induction mp) auto

lemma recordsOf_groupStep:
  "recordsOf (groupStep days c) d =
     (if dateOf c = d then recordsOf days d @ [entryOf c] else recordsOf days d)"
  by (simp add: groupStep_def recordsOf_def mapHas_def mapGet_mapSet Let_def dateOf_def entryOf_def
        split: option.splits)

lemma recordsOf_foldl:
  "recordsOf (foldl groupStep days cs) d
     = recordsOf days d @ map entryOf (filter (\<lambda>c. dateOf c = d) cs)"
  by (induction cs arbitrary: days) (simp_all add: recordsOf_groupStep)

lemma recordsOf_groupByDay:
  "recordsOf (groupByDay commits) d = map entryOf (filter (\<lambda>c. dateOf c = d) (rev commits))"
  by (simp add: groupByDay_def recordsOf_foldl) (simp add: recordsOf_def)

lemma summariesLoop_closed:
  assumes "safe n" and "safe (int i)"
    and "\<forall>j. int j < n \<longrightarrow> daysAgo (Num (int j)) = Inr (D j)"
  shows "summariesLoop daysAgo grouped (Num n) i acc =
     Ok (acc @ map (\<lambda>j. summarizeDay (D j) (recordsOf grouped (D j)))
                 (filter (\<lambda>j. j = 0 \<or> recordsOf grouped (D j) \<noteq> []) [i..<nat n]))"
  using assms(2)
proof (induction "nat n - i" arbitrary: i acc)
  case 0
  then have "\<not> int i < n" by linarith
  moreover have "[i..<nat n] = []" using 0 by simp
  ultimately show ?case
    using assms(1) 0(2) by (simp add: summariesLoop.simps)
next
  case (Suc k)
  then have lt: "int i < n" and k: "k = nat n - (i + 1)" by linarith+
  have s1: "safe (int (i + 1))"
    using lt assms(1) by (simp add: safe_def)
  have d: "daysAgo (Num (int i)) = Inr (D i)"
    using assms(3) lt by blast
  have upt: "[i..<nat n] = i # [i + 1..<nat n]"
    using lt by (simp add: upt_conv_Cons)
  show ?case
    using lt assms(1) Suc.prems d Suc.hyps(1) [OF k s1]
    by (subst summariesLoop.simps) (simp add: upt Let_def)
qed

lemma getDaySummaries_throws:
  "daysAgo n = Inl e \<Longrightarrow> getDaySummaries daysAgo commits n = Throws e"
  by (simp add: getDaySummaries_def)

lemma foldl_setAdd:
  "foldl setAdd acc xs = acc @ dedupFirst (filter (\<lambda>x. x \<notin> set acc) xs)"
proof (induction xs arbitrary: acc)
  case Nil
  show ?case by simp
next
  case (Cons x xs)
  show ?case
  proof (cases "x \<in> set acc")
    case True
    then show ?thesis using Cons.IH [of acc] by (simp add: setAdd_def)
  next
    case False
    have "filter (\<lambda>y. y \<notin> set (acc @ [x])) xs = filter (\<lambda>y. y \<noteq> x) (filter (\<lambda>y. y \<notin> set acc) xs)"
      by (induction xs) auto
    then show ?thesis using False Cons.IH [of "acc @ [x]"] by (simp add: setAdd_def)
  qed
qed

lemma uniqueOf_dedupFirst: "uniqueOf xs = dedupFirst xs"
  by (simp add: uniqueOf_def foldl_setAdd)

lemma set_dedupFirst: "set (dedupFirst xs) = set xs"
  by (induction xs rule: dedupFirst.induct) auto

lemma distinct_dedupFirst: "distinct (dedupFirst xs)"
  by (induction xs rule: dedupFirst.induct) (auto simp: set_dedupFirst)

section \<open>The value of a parsed balance\<close>

text \<open>
  The text captured by the balance pattern is a non-empty run of digits and commas.
  When it holds only commas, the balance is \<open>NaN\<close>. When it holds a digit, the balance
  is the non-negative integer that its digits spell, as long as that integer is at most
  \<open>2^53\<close>; beyond, it is a double near that integer, which the model leaves opaque.
\<close>

lemma firstSome_Some_mem: "firstSome Some ys = Some y \<Longrightarrow> y \<in> set ys"
  by (cases ys) auto

lemma search_Some:
  "search r bef rs = Some res \<Longrightarrow>
     \<exists>i\<le>length rs. \<exists>y\<in>set (ends r (MState (rev (take i rs) @ bef) (drop i rs) None)).
        group1 res = grp y"
proof (induction rs arbitrary: bef)
  case Nil
  then obtain y where "m r (MState bef [] None) Some = Some y" and "group1 res = grp y"
    by (auto split: option.splits)
  then have "y \<in> set (ends r (MState bef [] None))"
    by (simp add: m_firstSome firstSome_Some_mem)
  then show ?case using \<open>group1 res = grp y\<close> by auto
next
  case (Cons c cs)
  show ?case
  proof (cases "m r (MState bef (c # cs) None) Some")
    case (Some y)
    then have "group1 res = grp y" using Cons.prems by auto
    moreover have "y \<in> set (ends r (MState bef (c # cs) None))"
      using Some by (simp add: m_firstSome firstSome_Some_mem)
    ultimately have "\<exists>y\<in>set (ends r (MState (rev (take 0 (c # cs)) @ bef) (drop 0 (c # cs)) None)).
        group1 res = grp y"
      by auto
    then show ?thesis by blast
  next
    case None
    then have "search r (c # bef) cs = Some res" using Cons.prems by simp
    then obtain i y where i: "i \<le> length cs"
      and y: "y \<in> set (ends r (MState (rev (take i cs) @ c # bef) (drop i cs) None))"
      and g: "group1 res = grp y"
      using Cons.IH by blast
    have "y \<in> set (ends r (MState (rev (take (Suc i) (c # cs)) @ bef) (drop (Suc i) (c # cs)) None))"
      using y by simp
    moreover have "Suc i \<le> length (c # cs)" using i by simp
    ultimately show ?thesis using g by blast
  qed
qed

lemma grp_adv: "grp (adv n x) = grp x"
  by (simp add: adv_def)

lemma run_all: "n \<le> length (takeWhile p s) \<Longrightarrow> list_all p (take n s)"
proof -
  assume n: "n \<le> length (takeWhile p s)"
  have "take n s = take n (takeWhile p s @ dropWhile p s)"
    by (simp only: takeWhile_dropWhile_id)
  also have "\<dots> = take n (takeWhile p s)"
    using n by (simp del: takeWhile_dropWhile_id)
  finally have "set (take n s) \<subseteq> set (takeWhile p s)"
    by (simp add: set_take_subset)
  then show "list_all p (take n s)"
    by (auto simp: list_all_iff dest: set_takeWhileD)
qed

lemma grp_Grp_Plus:
  assumes "y \<in> set (ends (Grp (Plus p)) x)"
  shows "\<exists>g. grp y = Some g \<and> g \<noteq> [] \<and> list_all p g"
proof -
  have "set (ends (Grp (Plus p)) x) = setGrp x ` set (ends (Plus p) x)"
    by (simp only: ends.simps(8) set_map)
  then have "y \<in> setGrp x ` {adv n x | n. 1 \<le> n \<and> n \<le> length (takeWhile p (rest x))}"
    using assms by (simp only: set_ends_Plus)
  then obtain n where n: "1 \<le> n" "n \<le> length (takeWhile p (rest x))" and y: "y = setGrp x (adv n x)"
    by blast
  have le: "n \<le> length (rest x)"
    using n(2) length_takeWhile_le [of p "rest x"] by simp
  have "grp y = Some (take n (rest x))"
    using le by (simp add: y setGrp_def adv_def)
  moreover have "take n (rest x) \<noteq> []" using n(1) le by (cases "rest x") auto
  moreover have "list_all p (take n (rest x))" using n(2) by (rule run_all)
  ultimately show ?thesis by blast
qed

lemma mem_ends_Seq:
  "y \<in> set (ends (Seq a b) x) \<longleftrightarrow> (\<exists>z\<in>set (ends a x). y \<in> set (ends b z))"
  by auto

lemma grp_ends_stri:
  assumes "y \<in> set (ends (stri w) x)"
  shows "grp y = grp x"
proof (cases "length w \<le> length (rest x) \<and> ciMatch w (take (length w) (rest x))")
  case True
  then have "ends (stri w) x = [adv (length w) x]" by (simp only: ends_stri if_True simp_thms)
  then show ?thesis using assms by (simp add: grp_adv)
next
  case False
  then have "ends (stri w) x = []" by (simp only: ends_stri if_False simp_thms)
  then show ?thesis using assms by simp
qed

lemma grp_ends_Star: "y \<in> set (ends (Star p) x) \<Longrightarrow> grp y = grp x"
  unfolding set_ends_Star by (auto simp: grp_adv)

lemma grp_balRe:
  assumes "y \<in> set (ends balRe x)"
  shows "\<exists>g. grp y = Some g \<and> g \<noteq> [] \<and> list_all digitOrComma g"
proof -
  have b: "balRe = Seq (stri ''balance'') (Seq (Plus isSpace) (Seq (Grp (Plus digitOrComma))
                     (Seq (Star isSpace) (Seq (stri ''sats'') Eps))))"
    by (simp add: balRe_def seq_def)
  obtain y1 y2 y3 y4 y5 where "y1 \<in> set (ends (stri ''balance'') x)"
    and "y2 \<in> set (ends (Plus isSpace) y1)"
    and y3: "y3 \<in> set (ends (Grp (Plus digitOrComma)) y2)"
    and y4: "y4 \<in> set (ends (Star isSpace) y3)"
    and y5: "y5 \<in> set (ends (stri ''sats'') y4)"
    and y: "y \<in> set (ends Eps y5)"
    using assms unfolding b mem_ends_Seq by blast
  have "y = y5" using y by simp
  then have "grp y = grp y3"
    using grp_ends_stri [OF y5] grp_ends_Star [OF y4] by simp
  then show ?thesis using grp_Grp_Plus [OF y3] by simp
qed

lemma parseInt_digits:
  assumes "list_all isDigit s"
  shows "parseInt s = (if s = [] then NaN else num (int (digitsVal 10 0 s)))"
proof (cases s)
  case Nil
  then show ?thesis by (simp add: parseInt_def)
next
  case (Cons a t)
  have a: "isDigit a" and t: "list_all isDigit t" using assms Cons by simp_all
  have ns: "\<not> isSpace a" using a by (auto simp: isDigit_def isSpace_def)
  have sg: "a \<noteq> 43" "a \<noteq> 45" using a by (auto simp: isDigit_def)
  have hx: "\<not> (case t of [] \<Rightarrow> False | b # x \<Rightarrow> a = 48 \<and> (b = 120 \<or> b = 88))"
    using t by (cases t) (auto simp: isDigit_def)
  have da: "digitVal a < 10" using a by (auto simp: digitVal_def isDigit_def)
  have tw: "takeWhile (\<lambda>c. digitVal c < 10) t = t"
    using t by (auto simp: list_all_iff digitVal_def isDigit_def)
  show ?thesis
    unfolding Cons by (simp add: parseInt_def Let_def ns sg hx da tw)
qed

lemma balance_value:
  assumes "balance (parseCommit msg ts) = Some b"
  shows "\<exists>g. g \<noteq> [] \<and> list_all digitOrComma g
           \<and> b = (if list_all (\<lambda>c. c = 44) g then NaN
                  else num (int (digitsVal 10 0 (stripCommas g))))"
proof (cases "exec cycleRe msg")
  case None
  then show ?thesis using assms by (simp add: parseCommit_nomatch)
next
  case (Some cm)
  then obtain bm where bm: "exec balRe (bodyOf cm msg) = Some bm"
    and b: "b = parseGroup (map_option stripCommas (group1 bm))"
    using assms by (auto simp: parseCommit_balance)
  obtain y i where "y \<in> set (ends balRe (MState (rev (take i (bodyOf cm msg)) @ [])
                                        (drop i (bodyOf cm msg)) None))"
    and gy: "group1 bm = grp y"
    using search_Some [OF bm [unfolded exec_def]] by blast
  then obtain g where g: "group1 bm = Some g" and ne: "g \<noteq> []" and dc: "list_all digitOrComma g"
    using grp_balRe by fastforce
  have d: "list_all isDigit (stripCommas g)"
    using dc by (auto simp: stripCommas_def list_all_iff digitOrComma_def)
  have e: "(stripCommas g = []) = list_all (\<lambda>c. c = 44) g"
    by (auto simp: stripCommas_def list_all_iff filter_empty_conv)
  have "b = (if list_all (\<lambda>c. c = 44) g then NaN else num (int (digitsVal 10 0 (stripCommas g))))"
    using b g e by (simp add: parseGroup_def parseInt_digits [OF d])
  then show ?thesis using ne dc by blast
qed

section \<open>Numbers beyond the followed range\<close>

text \<open>
  Where the count of heartbeats is not an integer that doubles hold exactly, or its
  text would need an exponent, the heartbeat clause is left undetermined: so for the
  heartbeats 0 and \<open>10^21\<close>, and for the digits of \<open>2^53 + 1\<close> read by \<open>parseInt\<close>.
\<close>

lemma heartbeatClause_beyond:
  assumes "heartbeatStart day = Some (Num 0)"
    and "heartbeatEnd day = Some (Num 1000000000000000000000)"
  shows "heartbeatClause day = Undetermined"
  using assms by (simp add: heartbeatClause_def Let_def safe_def)

lemma parseInt_beyond: "parseInt (jsstr ''9007199254740993'') = Opaque"
  by (simp add: parseInt_def jsstr_def isSpace_def digitVal_def isDigit_def Let_def num_def
        safe_def)

section \<open>Two cycle reports that carry a heartbeat\<close>

lemma heartbeat_report_5:
  "heartbeat (parseCommit (jsstr ''Cycle 1: heartbeat #5'') ts) = Some (Num 5)"
proof -
  let ?cm = "\<lparr>matched = jsstr ''Cycle 1:'', group1 = Some (jsstr ''1'')\<rparr>"
  have e: "exec cycleRe (jsstr ''Cycle 1: heartbeat #5'') = Some ?cm"
    by (simp add: rx_defs)
  have b: "bodyOf ?cm (jsstr ''Cycle 1: heartbeat #5'') = jsstr ''heartbeat #5''"
    by (simp add: bodyOf_def trim_def jsstr_def isSpace_def)
  have h: "exec hbRe (jsstr ''heartbeat #5'')
             = Some \<lparr>matched = jsstr ''heartbeat #5'', group1 = Some (jsstr ''5'')\<rparr>"
    by (simp add: rx_defs)
  have p: "parseInt (jsstr ''5'') = Num 5"
    by (simp add: parseInt_def jsstr_def isSpace_def digitVal_def isDigit_def Let_def num_def
          safe_def)
  show ?thesis
    by (simp add: parseCommit_heartbeat [OF e] b h parseGroup_def p)
qed

lemma heartbeat_report_3:
  "heartbeat (parseCommit (jsstr ''Cycle 2: heartbeat #3'') ts) = Some (Num 3)"
proof -
  let ?cm = "\<lparr>matched = jsstr ''Cycle 2:'', group1 = Some (jsstr ''2'')\<rparr>"
  have e: "exec cycleRe (jsstr ''Cycle 2: heartbeat #3'') = Some ?cm"
    by (simp add: rx_defs)
  have b: "bodyOf ?cm (jsstr ''Cycle 2: heartbeat #3'') = jsstr ''heartbeat #3''"
    by (simp add: bodyOf_def trim_def jsstr_def isSpace_def)
  have h: "exec hbRe (jsstr ''heartbeat #3'')
             = Some \<lparr>matched = jsstr ''heartbeat #3'', group1 = Some (jsstr ''3'')\<rparr>"
    by (simp add: rx_defs)
  have p: "parseInt (jsstr ''3'') = Num 3"
    by (simp add: parseInt_def jsstr_def isSpace_def digitVal_def isDigit_def Let_def num_def
          safe_def)
  show ?thesis
    by (simp add: parseCommit_heartbeat [OF e] b h parseGroup_def p)
qed

section \<open>The claims\<close>

subsection \<open>C1\<close>

text \<open>
  C1. For every message text \<open>T\<close> and time stamp \<open>ts\<close>: if \<open>T\<close> does not match the cycle
  prefix "Cycle integer[-integer]:" at its start, then \<open>parseCommit T ts\<close> has status
  \<open>manual\<close>, its events are the one-element list holding the first line of \<open>T\<close> (the text
  before the first line feed), and \<open>cycle\<close>, \<open>heartbeat\<close>, \<open>balance\<close> and \<open>balanceDelta\<close>
  are absent.
\<close>

theorem parseCommit_non_cycle_manual:
  assumes "\<not> cyclePrefix T"
  shows "status (parseCommit T ts) = manual
       \<and> events (parseCommit T ts) = [firstLine T]
       \<and> firstLine T = takeWhile (\<lambda>c. c \<noteq> 10) T
       \<and> cycle (parseCommit T ts) = None
       \<and> heartbeat (parseCommit T ts) = None
       \<and> balance (parseCommit T ts) = None
       \<and> balanceDelta (parseCommit T ts) = None"
proof -
  have "exec cycleRe T = None" using assms exec_cycleRe [of T] by simp
  then show ?thesis by (simp add: parseCommit_nomatch firstLine_takeWhile)
qed

text \<open>The commit "Loop adoption: x" is such a text.\<close>

theorem parseCommit_non_cycle_manual_witness:
  "\<not> cyclePrefix (jsstr ''Loop adoption: x'')
   \<and> status (parseCommit (jsstr ''Loop adoption: x'') []) = manual
   \<and> events (parseCommit (jsstr ''Loop adoption: x'') []) = [jsstr ''Loop adoption: x'']
   \<and> cycle (parseCommit (jsstr ''Loop adoption: x'') []) = None
   \<and> balance (parseCommit (jsstr ''Loop adoption: x'') []) = None"
proof -
  have e: "exec cycleRe (jsstr ''Loop adoption: x'') = None"
    by (simp add: rx_defs)
  have h: "\<not> cyclePrefix (jsstr ''Loop adoption: x'')"
    using e exec_cycleRe [of "jsstr ''Loop adoption: x''"] by simp
  have f: "takeWhile (\<lambda>c. c \<noteq> 10) (jsstr ''Loop adoption: x'') = jsstr ''Loop adoption: x''"
    by (simp add: jsstr_def)
  show ?thesis
    using h parseCommit_non_cycle_manual [OF h, of "[]"] by (simp add: f)
qed

subsection \<open>C2\<close>

text \<open>
  C2 as it is written says that the status is \<open>manual\<close> exactly when the first line of
  the message does not match the cycle prefix. The parser matches the whole message,
  and the white space after "Cycle" may be a line feed: for the message "Cycle", line
  feed, "5: x" the first line is "Cycle", which does not match, and the status is not
  \<open>manual\<close>.
\<close>

theorem manual_iff_headline_counterexample:
  "\<not> (status (parseCommit (jsstr ''Cycle'' @ [10] @ jsstr ''5: x'') []) = manual
       \<longleftrightarrow> \<not> cyclePrefix (firstLine (jsstr ''Cycle'' @ [10] @ jsstr ''5: x'')))"
proof -
  have f: "firstLine (jsstr ''Cycle'' @ [10] @ jsstr ''5: x'') = jsstr ''Cycle''"
    by (simp add: firstLine_def jsstr_def)
  have "exec cycleRe (jsstr ''Cycle'') = None"
    by (simp add: rx_defs)
  then have h: "\<not> cyclePrefix (jsstr ''Cycle'')"
    using exec_cycleRe [of "jsstr ''Cycle''"] by simp
  have "exec cycleRe (jsstr ''Cycle'' @ [10] @ jsstr ''5: x'')
          = Some \<lparr>matched = jsstr ''Cycle'' @ [10] @ jsstr ''5:'', group1 = Some (jsstr ''5'')\<rparr>"
    by (simp add: rx_defs)
  then have "status (parseCommit (jsstr ''Cycle'' @ [10] @ jsstr ''5: x'') []) \<noteq> manual"
    by (simp add: parseCommit_status)
  then show ?thesis using h f by simp
qed

text \<open>
  C2, amended. For every message and time stamp, the record returned by \<open>parseCommit\<close>
  satisfies: \<open>cycle\<close> is present if and only if the status is not \<open>manual\<close>; the status
  is \<open>manual\<close> if and only if the message text does not match the cycle prefix at its
  start, where the white space after "Cycle" may contain line breaks; and a message
  whose first line matches the cycle prefix never has the status \<open>manual\<close>.
\<close>

theorem manual_iff_message_prefix:
  "(cycle (parseCommit msg ts) \<noteq> None \<longleftrightarrow> status (parseCommit msg ts) \<noteq> manual)
 \<and> (status (parseCommit msg ts) = manual \<longleftrightarrow> \<not> cyclePrefix msg)
 \<and> (cyclePrefix (firstLine msg) \<longrightarrow> status (parseCommit msg ts) \<noteq> manual)"
proof (cases "exec cycleRe msg")
  case None
  then have "\<not> cyclePrefix msg" using exec_cycleRe [of msg] by simp
  then show ?thesis using None cyclePrefix_firstLine [of msg]
    by (auto simp: parseCommit_nomatch)
next
  case (Some cm)
  then have "cyclePrefix msg" using exec_cycleRe [of msg] by simp
  then show ?thesis using Some by (simp add: parseCommit_status parseCommit_cycle)
qed

text \<open>The first line of "Cycle 1: (+5)" matches the cycle prefix.\<close>

theorem manual_iff_message_prefix_witness:
  "cyclePrefix (firstLine (jsstr ''Cycle 1: (+5)''))
 \<and> status (parseCommit (jsstr ''Cycle 1: (+5)'') []) \<noteq> manual
 \<and> cycle (parseCommit (jsstr ''Cycle 1: (+5)'') []) \<noteq> None"
proof -
  have f: "firstLine (jsstr ''Cycle 1: (+5)'') = jsstr ''Cycle 1: (+5)''"
    by (simp add: firstLine_def jsstr_def)
  have "exec cycleRe (jsstr ''Cycle 1: (+5)'')
          = Some \<lparr>matched = jsstr ''Cycle 1:'', group1 = Some (jsstr ''1'')\<rparr>"
    by (simp add: rx_defs)
  then have h: "cyclePrefix (firstLine (jsstr ''Cycle 1: (+5)''))"
    using exec_cycleRe [of "jsstr ''Cycle 1: (+5)''"] by (simp add: f)
  show ?thesis
    using h manual_iff_message_prefix [of "jsstr ''Cycle 1: (+5)''" "[]"] by blast
qed

subsection \<open>C3\<close>

text \<open>
  C3. For every message that matches the cycle prefix, with \<open>body\<close> the trimmed text
  after the match: the status is \<open>idle\<close> if the body contains the word "idle"
  (case-insensitive, between word boundaries); otherwise \<open>error\<close> if it contains one of
  the words "fail", "error", "blocked"; otherwise \<open>active\<close>. So a body with both "idle"
  and an error word is classified \<open>idle\<close>.
\<close>

theorem status_cascade:
  assumes "exec cycleRe msg = Some cm"
  shows "status (parseCommit msg ts) =
           (if containsWord ''idle'' (bodyOf cm msg) then idle
            else if containsWord ''fail'' (bodyOf cm msg) \<or> containsWord ''error'' (bodyOf cm msg)
                    \<or> containsWord ''blocked'' (bodyOf cm msg) then error
            else active)"
  using assms by (simp only: parseCommit_status test_idleRe test_errorRe)

text \<open>The body of "Cycle 1: idle fail" contains both "idle" and "fail"; the status is \<open>idle\<close>.\<close>

theorem status_cascade_witness:
  "exec cycleRe (jsstr ''Cycle 1: idle fail'')
     = Some \<lparr>matched = jsstr ''Cycle 1:'', group1 = Some (jsstr ''1'')\<rparr>
 \<and> bodyOf \<lparr>matched = jsstr ''Cycle 1:'', group1 = Some (jsstr ''1'')\<rparr> (jsstr ''Cycle 1: idle fail'')
     = jsstr ''idle fail''
 \<and> containsWord ''idle'' (jsstr ''idle fail'')
 \<and> containsWord ''fail'' (jsstr ''idle fail'')
 \<and> status (parseCommit (jsstr ''Cycle 1: idle fail'') []) = idle"
proof -
  let ?cm = "\<lparr>matched = jsstr ''Cycle 1:'', group1 = Some (jsstr ''1'')\<rparr>"
  have e: "exec cycleRe (jsstr ''Cycle 1: idle fail'') = Some ?cm"
    by (simp add: rx_defs)
  have b: "bodyOf ?cm (jsstr ''Cycle 1: idle fail'') = jsstr ''idle fail''"
    by (simp add: bodyOf_def trim_def jsstr_def isSpace_def)
  have "test idleRe (jsstr ''idle fail'')"
    by (simp add: rx_defs)
  then have i: "containsWord ''idle'' (jsstr ''idle fail'')"
    by (simp only: test_idleRe)
  have "test (wordRe ''fail'') (jsstr ''idle fail'')"
    by (simp add: wordRe_def rx_defs)
  moreover have "test (wordRe ''fail'') (jsstr ''idle fail'') = containsWord ''fail'' (jsstr ''idle fail'')"
    by (rule test_wordRe) (simp_all add: isWordChar_def)
  ultimately have f: "containsWord ''fail'' (jsstr ''idle fail'')" by simp
  show ?thesis
    using e b i f status_cascade [OF e, of "[]"] by (simp only: b i if_True simp_thms)
qed

subsection \<open>C4\<close>

text \<open>
  C4 says that a present balance is a non-negative integer. The balance pattern accepts
  a run of commas without any digit; stripping the commas leaves the empty text, and
  \<open>parseInt\<close> of the empty text is \<open>NaN\<close>, which is stored as the balance: for the
  message "Cycle 1: balance , sats" the balance is present and is \<open>NaN\<close>.
\<close>

theorem balance_commas_only_NaN:
  "balance (parseCommit (jsstr ''Cycle 1: balance , sats'') (jsstr ''2026-01-01T00:00:00Z''))
     = Some NaN"
proof -
  let ?cm = "\<lparr>matched = jsstr ''Cycle 1:'', group1 = Some (jsstr ''1'')\<rparr>"
  have e: "exec cycleRe (jsstr ''Cycle 1: balance , sats'') = Some ?cm"
    by (simp add: rx_defs)
  have b: "bodyOf ?cm (jsstr ''Cycle 1: balance , sats'') = jsstr ''balance , sats''"
    by (simp add: bodyOf_def trim_def jsstr_def isSpace_def)
  have m: "exec balRe (jsstr ''balance , sats'')
             = Some \<lparr>matched = jsstr ''balance , sats'', group1 = Some (jsstr '','')\<rparr>"
    by (simp add: rx_defs)
  have p: "parseInt (stripCommas (jsstr '','')) = NaN"
    by (simp add: parseInt_def stripCommas_def jsstr_def)
  show ?thesis
    by (simp add: parseCommit_balance [OF e] b m parseGroup_def p)
qed

subsection \<open>C5\<close>

text \<open>
  C5. For every date key and every list of cycle records, the summary returned by
  \<open>summarizeDay\<close> has \<open>totalCycles = idleCycles + activeCycles + errorCycles\<close>;
  \<open>manualCommits\<close> is the number of manual records, and these add nothing to
  \<open>totalCycles\<close>, which is the number of records that are not manual.
\<close>

theorem summarizeDay_totals:
  "totalCycles (summarizeDay d cs)
     = idleCycles (summarizeDay d cs) + activeCycles (summarizeDay d cs)
       + errorCycles (summarizeDay d cs)
 \<and> manualCommits (summarizeDay d cs) = length (filter (\<lambda>c. status c = manual) cs)
 \<and> totalCycles (summarizeDay d cs) = length (filter (\<lambda>c. status c \<noteq> manual) cs)"
  by (simp add: summarizeDay_def Let_def count_foldl sumInit_def filter_status_partition)

subsection \<open>C6\<close>

text \<open>
  C6 as it is written says that, for every requested day count, the most recent day is
  always included. For the day count 0 the loop does not run and no day is returned.
\<close>

theorem getDaySummaries_zero_counterexample:
  "getDaySummaries
     (\<lambda>x. case x of
             Num k \<Rightarrow> Inr (if k = 0 then jsstr ''2026-11-03'' else jsstr ''2026-11-02'')
           | _ \<Rightarrow> Inl RangeError)
     [] (Num 0) = Ok []"
  by (simp add: getDaySummaries_def summariesLoop.simps safe_def)

text \<open>
  C6, amended. For every requested day count \<open>n\<close> of at least 1 for which the date
  computations succeed (\<open>daysAgo(n)\<close> and \<open>daysAgo(j)\<close> for the days \<open>j\<close> below \<open>n\<close> return
  date keys, as they do for every count the route passes, which is at most 30),
  \<open>getDaySummaries\<close> returns the summaries of the days \<open>daysAgo 0\<close>, \<open>daysAgo 1\<close>, ... in
  this order, the most recent day first, each summarising the records of its day; a
  day other than the most recent one whose record list is empty is omitted; the most
  recent day is always included and comes first, and when it has no records its summary
  has all counts zero and all optional fields absent.
\<close>

theorem getDaySummaries_recent_first:
  assumes "1 \<le> n" and "safe n" and "daysAgo (Num n) = Inr since"
    and "\<forall>j. int j < n \<longrightarrow> daysAgo (Num (int j)) = Inr (D j)"
  shows "getDaySummaries daysAgo commits (Num n) =
           Ok (map (\<lambda>j. summarizeDay (D j) (dayRecords commits (D j)))
                 (filter (\<lambda>j. j = 0 \<or> dayRecords commits (D j) \<noteq> []) [0..<nat n]))
       \<and> (\<exists>older. getDaySummaries daysAgo commits (Num n)
                     = Ok (summarizeDay (D 0) (dayRecords commits (D 0)) # older))
       \<and> (dayRecords commits (D 0) = [] \<longrightarrow>
           (\<exists>older. getDaySummaries daysAgo commits (Num n) = Ok (zeroSummary (D 0) # older)))"
proof -
  have upt: "[0..<nat n] = 0 # [1..<nat n]"
    using assms(1) by (simp add: upt_conv_Cons)
  have z: "safe (int 0)" by (simp add: safe_def)
  have c: "getDaySummaries daysAgo commits (Num n) =
           Ok (map (\<lambda>j. summarizeDay (D j) (dayRecords commits (D j)))
                 (filter (\<lambda>j. j = 0 \<or> dayRecords commits (D j) \<noteq> []) [0..<nat n]))"
    using summariesLoop_closed [OF assms(2) z assms(4), of "groupByDay commits" "[]"]
    by (simp add: getDaySummaries_def assms(3) dayRecords_def recordsOf_groupByDay)
  have h: "\<exists>older. getDaySummaries daysAgo commits (Num n)
                     = Ok (summarizeDay (D 0) (dayRecords commits (D 0)) # older)"
    unfolding c upt by simp
  have e: "dayRecords commits (D 0) = [] \<longrightarrow>
           (\<exists>older. getDaySummaries daysAgo commits (Num n) = Ok (zeroSummary (D 0) # older))"
    using h by (auto simp: summarizeDay_empty zeroSummary_def)
  show ?thesis using c h e by blast
qed

text \<open>Two days requested and no commit at all: only the most recent day, all zero.\<close>

theorem getDaySummaries_recent_first_witness:
  "(1::int) \<le> 2 \<and> safe 2
 \<and> dayRecords [] (jsstr ''2026-11-03'') = []
 \<and> getDaySummaries
      (\<lambda>x. case x of
              Num k \<Rightarrow> Inr (if k = 0 then jsstr ''2026-11-03''
                            else if k = 1 then jsstr ''2026-11-02'' else jsstr ''2026-11-01'')
            | _ \<Rightarrow> Inl RangeError)
      [] (Num 2)
     = Ok [zeroSummary (jsstr ''2026-11-03'')]"
proof -
  let ?daysAgo = "\<lambda>x. case x of
              Num k \<Rightarrow> Inr (if k = 0 then jsstr ''2026-11-03''
                            else if k = 1 then jsstr ''2026-11-02'' else jsstr ''2026-11-01'')
            | _ \<Rightarrow> (Inl RangeError :: jserror + jsstring)"
  let ?D = "\<lambda>j::nat. if j = 0 then jsstr ''2026-11-03''
                     else if j = 1 then jsstr ''2026-11-02'' else jsstr ''2026-11-01''"
  have n: "(1::int) \<le> 2" by simp
  have s: "safe 2" by (simp add: safe_def)
  have a: "?daysAgo (Num 2) = Inr (jsstr ''2026-11-01'')" by simp
  have d: "\<forall>j. int j < 2 \<longrightarrow> ?daysAgo (Num (int j)) = Inr (?D j)" by auto
  have r: "\<And>d. dayRecords [] d = []" by (simp add: dayRecords_def)
  have u: "[0..<2] = [0, Suc 0]" by (simp add: upt_rec)
  show ?thesis
    using n s getDaySummaries_recent_first [OF n s a d, of "[]"]
    by (simp add: r u summarizeDay_empty zeroSummary_def)
qed

subsection \<open>C7\<close>

text \<open>
  C7 as it is written says that the heartbeat clause reports the count
  \<open>heartbeatEnd - heartbeatStart + 1\<close>, in the singular for 1 and in the plural
  otherwise. On a day whose first report carries heartbeat 5 and whose last carries
  heartbeat 3 that count is -1, and the clause reads "Sent 1 heartbeat to AIBTC.".
\<close>

theorem heartbeat_count_counterexample:
  "heartbeatStart (summarizeDay (jsstr ''2026-01-01'')
      [parseCommit (jsstr ''Cycle 1: heartbeat #5'') (jsstr ''2026-01-01T10:00:00Z''),
       parseCommit (jsstr ''Cycle 2: heartbeat #3'') (jsstr ''2026-01-01T11:00:00Z'')])
     = Some (Num 5)
 \<and> heartbeatEnd (summarizeDay (jsstr ''2026-01-01'')
      [parseCommit (jsstr ''Cycle 1: heartbeat #5'') (jsstr ''2026-01-01T10:00:00Z''),
       parseCommit (jsstr ''Cycle 2: heartbeat #3'') (jsstr ''2026-01-01T11:00:00Z'')])
     = Some (Num 3)
 \<and> heartbeatClause (summarizeDay (jsstr ''2026-01-01'')
      [parseCommit (jsstr ''Cycle 1: heartbeat #5'') (jsstr ''2026-01-01T10:00:00Z''),
       parseCommit (jsstr ''Cycle 2: heartbeat #3'') (jsstr ''2026-01-01T11:00:00Z'')])
     = Ok [jsstr ''Sent 1 heartbeat to AIBTC.'']
 \<and> heartbeatText (3 - 5 + 1) = jsstr ''Sent -1 heartbeats to AIBTC.''
 \<and> heartbeatClause (summarizeDay (jsstr ''2026-01-01'')
      [parseCommit (jsstr ''Cycle 1: heartbeat #5'') (jsstr ''2026-01-01T10:00:00Z''),
       parseCommit (jsstr ''Cycle 2: heartbeat #3'') (jsstr ''2026-01-01T11:00:00Z'')])
     \<noteq> Ok [heartbeatText (3 - 5 + 1)]"
proof -
  let ?day = "summarizeDay (jsstr ''2026-01-01'')
      [parseCommit (jsstr ''Cycle 1: heartbeat #5'') (jsstr ''2026-01-01T10:00:00Z''),
       parseCommit (jsstr ''Cycle 2: heartbeat #3'') (jsstr ''2026-01-01T11:00:00Z'')]"
  have s: "heartbeatStart ?day = Some (Num 5)"
    by (simp add: heartbeat_pair heartbeat_report_5)
  have e: "heartbeatEnd ?day = Some (Num 3)"
    by (simp add: heartbeat_pair heartbeat_report_3)
  have c: "heartbeatClause ?day = Ok [jsstr ''Sent 1 heartbeat to AIBTC.'']"
    by (simp add: heartbeatClause_def s e Let_def num_def safe_def)
  have t: "heartbeatText (3 - 5 + 1) = jsstr ''Sent -1 heartbeats to AIBTC.''"
    by (simp add: heartbeatText_def intToString_def natToString.simps jsstr_def)
  have d: "jsstr ''Sent 1 heartbeat to AIBTC.'' \<noteq> jsstr ''Sent -1 heartbeats to AIBTC.''"
    by (simp add: jsstr_def)
  show ?thesis using s e c t d by simp
qed

text \<open>
  C7, amended. For every day summary in which \<open>heartbeatStart\<close> and \<open>heartbeatEnd\<close> are
  both present: when both are integers of magnitude at most \<open>2^53\<close>, as are their
  difference and the count \<open>heartbeatEnd - heartbeatStart + 1\<close>, the heartbeat clause
  reports that count if it is at least 1, in the singular for 1 and in the plural
  otherwise, and is the singular sentence "Sent 1 heartbeat to AIBTC." if the count is
  below 1; when one of the two is not a number, the clause is that singular sentence
  too.
\<close>

theorem heartbeatClause_count:
  assumes "heartbeatStart day = Some hs" and "heartbeatEnd day = Some he"
  shows "(hs = NaN \<or> he = NaN \<longrightarrow> heartbeatClause day = Ok [heartbeatText 1])
       \<and> (\<forall>s e. hs = Num s \<and> he = Num e \<and> safe s \<and> safe e \<and> safe (e - s) \<and> safe (e - s + 1)
             \<longrightarrow> heartbeatClause day = Ok [heartbeatText (max 1 (e - s + 1))])"
proof -
  have 1: "hs = NaN \<or> he = NaN \<longrightarrow> heartbeatClause day = Ok [heartbeatText 1]"
    using assms by (cases hs; cases he) (auto simp: heartbeatClause_def heartbeatText_def Let_def)
  have 2: "\<forall>s e. hs = Num s \<and> he = Num e \<and> safe s \<and> safe e \<and> safe (e - s) \<and> safe (e - s + 1)
             \<longrightarrow> heartbeatClause day = Ok [heartbeatText (max 1 (e - s + 1))]"
  proof (intro allI impI)
    fix s e
    assume h: "hs = Num s \<and> he = Num e \<and> safe s \<and> safe e \<and> safe (e - s) \<and> safe (e - s + 1)"
    have one: "safe 1" by (simp add: safe_def)
    show "heartbeatClause day = Ok [heartbeatText (max 1 (e - s + 1))]"
      using assms h one
      by (auto simp: heartbeatClause_def Let_def heartbeatText_def max_def num_def)
  qed
  show ?thesis using 1 2 by blast
qed

text \<open>A day from heartbeat 3 to heartbeat 5: three heartbeats.\<close>

theorem heartbeatClause_count_witness:
  "heartbeatStart (summarizeDay (jsstr ''2026-01-01'')
      [parseCommit (jsstr ''Cycle 2: heartbeat #3'') (jsstr ''2026-01-01T10:00:00Z''),
       parseCommit (jsstr ''Cycle 1: heartbeat #5'') (jsstr ''2026-01-01T11:00:00Z'')])
     = Some (Num 3)
 \<and> heartbeatEnd (summarizeDay (jsstr ''2026-01-01'')
      [parseCommit (jsstr ''Cycle 2: heartbeat #3'') (jsstr ''2026-01-01T10:00:00Z''),
       parseCommit (jsstr ''Cycle 1: heartbeat #5'') (jsstr ''2026-01-01T11:00:00Z'')])
     = Some (Num 5)
 \<and> safe 3 \<and> safe 5 \<and> safe (5 - 3) \<and> safe (5 - 3 + 1)
 \<and> heartbeatClause (summarizeDay (jsstr ''2026-01-01'')
      [parseCommit (jsstr ''Cycle 2: heartbeat #3'') (jsstr ''2026-01-01T10:00:00Z''),
       parseCommit (jsstr ''Cycle 1: heartbeat #5'') (jsstr ''2026-01-01T11:00:00Z'')])
     = Ok [jsstr ''Sent 3 heartbeats to AIBTC.'']"
proof -
  let ?day = "summarizeDay (jsstr ''2026-01-01'')
      [parseCommit (jsstr ''Cycle 2: heartbeat #3'') (jsstr ''2026-01-01T10:00:00Z''),
       parseCommit (jsstr ''Cycle 1: heartbeat #5'') (jsstr ''2026-01-01T11:00:00Z'')]"
  have s: "heartbeatStart ?day = Some (Num 3)"
    by (simp add: heartbeat_pair heartbeat_report_3)
  have e: "heartbeatEnd ?day = Some (Num 5)"
    by (simp add: heartbeat_pair heartbeat_report_5)
  have f: "safe 3 \<and> safe 5 \<and> safe (5 - 3) \<and> safe (5 - 3 + 1)"
    by (simp add: safe_def)
  have t: "heartbeatText 3 = jsstr ''Sent 3 heartbeats to AIBTC.''"
    by (simp add: heartbeatText_def intToString_def natToString.simps jsstr_def)
  have "heartbeatClause ?day = Ok [heartbeatText (max 1 (5 - 3 + 1))]"
    using heartbeatClause_count [OF s e] f by blast
  then show ?thesis using s e f by (simp add: t)
qed

subsection \<open>C8\<close>

text \<open>
  C8. The notable-events clause of \<open>narrateDay\<close> works on the events of the day with
  duplicates removed, first occurrences kept in their order: with at most 3 unique
  events it lists them all; otherwise it lists the first 3 and appends "and N more",
  \<open>N\<close> being the number of remaining unique events. For the events a, b, a, c, d the
  unique list is a, b, c, d and the clause ends with "and 1 more.".
\<close>

theorem notableClause_dedup:
  "notableClause day =
     (if dayEvents day = [] then []
      else if length (dedupFirst (dayEvents day)) \<le> 3
      then [jsstr ''Notable: '' @ joinWith (jsstr ''. '') (dedupFirst (dayEvents day)) @ jsstr ''.'']
      else [jsstr ''Notable: '' @ joinWith (jsstr ''. '') (take 3 (dedupFirst (dayEvents day)))
              @ jsstr '', and '' @ natToString (length (dedupFirst (dayEvents day)) - 3)
              @ jsstr '' more.''])
 \<and> distinct (dedupFirst (dayEvents day))
 \<and> set (dedupFirst (dayEvents day)) = set (dayEvents day)
 \<and> uniqueOf (map jsstr [''a'', ''b'', ''a'', ''c'', ''d'']) = map jsstr [''a'', ''b'', ''c'', ''d'']
 \<and> notableClause (day\<lparr>dayEvents := map jsstr [''a'', ''b'', ''a'', ''c'', ''d'']\<rparr>)
       = [jsstr ''Notable: a. b. c, and 1 more.'']
 \<and> endsWith (jsstr ''Notable: a. b. c, and 1 more.'') (jsstr ''and 1 more.'')"
proof -
  have 1: "notableClause day =
     (if dayEvents day = [] then []
      else if length (dedupFirst (dayEvents day)) \<le> 3
      then [jsstr ''Notable: '' @ joinWith (jsstr ''. '') (dedupFirst (dayEvents day)) @ jsstr ''.'']
      else [jsstr ''Notable: '' @ joinWith (jsstr ''. '') (take 3 (dedupFirst (dayEvents day)))
              @ jsstr '', and '' @ natToString (length (dedupFirst (dayEvents day)) - 3)
              @ jsstr '' more.''])"
    by (simp add: notableClause_def Let_def uniqueOf_dedupFirst)
  have 2: "uniqueOf (map jsstr [''a'', ''b'', ''a'', ''c'', ''d'']) = map jsstr [''a'', ''b'', ''c'', ''d'']"
    by (simp add: uniqueOf_def setAdd_def jsstr_def)
  have 3: "notableClause (day\<lparr>dayEvents := map jsstr [''a'', ''b'', ''a'', ''c'', ''d'']\<rparr>)
       = [jsstr ''Notable: a. b. c, and 1 more.'']"
    by (simp add: notableClause_def Let_def uniqueOf_def setAdd_def jsstr_def natToString.simps)
  have 4: "endsWith (jsstr ''Notable: a. b. c, and 1 more.'') (jsstr ''and 1 more.'')"
    by (simp add: endsWith_def jsstr_def)
  show ?thesis using 1 2 3 4 by (simp only: distinct_dedupFirst set_dedupFirst simp_thms)
qed

subsection \<open>C9\<close>

text \<open>
  C9. There is a message that matches the cycle prefix for which \<open>parseCommit\<close> returns a
  record with \<open>balanceDelta\<close> present and \<open>balance\<close> absent. For every message that
  matches the cycle prefix, \<open>balanceDelta\<close> is present exactly when the body contains a
  parenthesized signed number somewhere, whether or not a balance field occurs.
\<close>

theorem delta_without_balance:
  "(\<exists>msg. cyclePrefix msg
      \<and> (\<forall>ts. balanceDelta (parseCommit msg ts) \<noteq> None \<and> balance (parseCommit msg ts) = None))
 \<and> (\<forall>msg cm ts. exec cycleRe msg = Some cm \<longrightarrow>
       (balanceDelta (parseCommit msg ts) \<noteq> None \<longleftrightarrow> hasSignedParen (bodyOf cm msg)))"
proof -
  let ?m = "jsstr ''Cycle 1: (+5)''"
  let ?cm = "\<lparr>matched = jsstr ''Cycle 1:'', group1 = Some (jsstr ''1'')\<rparr>"
  have e: "exec cycleRe ?m = Some ?cm"
    by (simp add: rx_defs)
  have b: "bodyOf ?cm ?m = jsstr ''(+5)''"
    by (simp add: bodyOf_def trim_def jsstr_def isSpace_def)
  have d: "exec deltaRe (jsstr ''(+5)'') = Some \<lparr>matched = jsstr ''(+5)'', group1 = Some (jsstr ''+5'')\<rparr>"
    by (simp add: rx_defs)
  have n: "exec balRe (jsstr ''(+5)'') = None"
    by (simp add: rx_defs)
  have c: "cyclePrefix ?m" using e exec_cycleRe [of ?m] by simp
  have "\<forall>ts. balanceDelta (parseCommit ?m ts) \<noteq> None \<and> balance (parseCommit ?m ts) = None"
    by (simp add: parseCommit_balanceDelta [OF e] parseCommit_balance [OF e] b d n)
  then have 1: "\<exists>msg. cyclePrefix msg
      \<and> (\<forall>ts. balanceDelta (parseCommit msg ts) \<noteq> None \<and> balance (parseCommit msg ts) = None)"
    using c by blast
  have 2: "\<forall>msg cm ts. exec cycleRe msg = Some cm \<longrightarrow>
       (balanceDelta (parseCommit msg ts) \<noteq> None \<longleftrightarrow> hasSignedParen (bodyOf cm msg))"
  proof (intro allI impI)
    fix msg cm ts
    assume m: "exec cycleRe msg = Some cm"
    show "balanceDelta (parseCommit msg ts) \<noteq> None \<longleftrightarrow> hasSignedParen (bodyOf cm msg)"
      using exec_deltaRe [of "bodyOf cm msg"] by (simp add: parseCommit_balanceDelta [OF m])
  qed
  show ?thesis using 1 2 by blast
qed

text \<open>The message "Cycle 1: (+5)": the delta is 5 and there is no balance.\<close>

theorem delta_without_balance_witness:
  "exec cycleRe (jsstr ''Cycle 1: (+5)'')
     = Some \<lparr>matched = jsstr ''Cycle 1:'', group1 = Some (jsstr ''1'')\<rparr>
 \<and> hasSignedParen (bodyOf \<lparr>matched = jsstr ''Cycle 1:'', group1 = Some (jsstr ''1'')\<rparr>
                      (jsstr ''Cycle 1: (+5)''))
 \<and> balanceDelta (parseCommit (jsstr ''Cycle 1: (+5)'') []) = Some (Num 5)
 \<and> balance (parseCommit (jsstr ''Cycle 1: (+5)'') []) = None"
proof -
  let ?m = "jsstr ''Cycle 1: (+5)''"
  let ?cm = "\<lparr>matched = jsstr ''Cycle 1:'', group1 = Some (jsstr ''1'')\<rparr>"
  have e: "exec cycleRe ?m = Some ?cm"
    by (simp add: rx_defs)
  have b: "bodyOf ?cm ?m = jsstr ''(+5)''"
    by (simp add: bodyOf_def trim_def jsstr_def isSpace_def)
  have d: "exec deltaRe (jsstr ''(+5)'') = Some \<lparr>matched = jsstr ''(+5)'', group1 = Some (jsstr ''+5'')\<rparr>"
    by (simp add: rx_defs)
  have n: "exec balRe (jsstr ''(+5)'') = None"
    by (simp add: rx_defs)
  have p: "parseInt (stripCommas (jsstr ''+5'')) = Num 5"
    by (simp add: parseInt_def stripCommas_def jsstr_def isSpace_def digitVal_def isDigit_def
          Let_def num_def safe_def)
  have v: "balanceDelta (parseCommit ?m []) = Some (Num 5)"
    by (simp add: parseCommit_balanceDelta [OF e] b d parseGroup_def p)
  have w: "balance (parseCommit ?m []) = None"
    by (simp add: parseCommit_balance [OF e] b n)
  have "balanceDelta (parseCommit ?m []) \<noteq> None \<longleftrightarrow> hasSignedParen (bodyOf ?cm ?m)"
    using delta_without_balance e by blast
  then have "hasSignedParen (bodyOf ?cm ?m)" using v by simp
  then show ?thesis using e v w by blast
qed

subsection \<open>C10\<close>

text \<open>
  C10. For every date key and every list of cycle records, in the summary returned by
  \<open>summarizeDay\<close>: \<open>balanceStart\<close> is present if and only if \<open>balanceEnd\<close> is present;
  the balance delta is present if and only if \<open>balanceStart\<close> is present;
  \<open>heartbeatStart\<close> is present if and only if \<open>heartbeatEnd\<close> is present.
\<close>

theorem summarizeDay_pairs:
  "(balanceStart (summarizeDay d cs) \<noteq> None \<longleftrightarrow> balanceEnd (summarizeDay d cs) \<noteq> None)
 \<and> (dayBalanceDelta (summarizeDay d cs) \<noteq> None \<longleftrightarrow> balanceStart (summarizeDay d cs) \<noteq> None)
 \<and> (heartbeatStart (summarizeDay d cs) \<noteq> None \<longleftrightarrow> heartbeatEnd (summarizeDay d cs) \<noteq> None)"
  using paired_foldl [OF paired_init, of cs]
  by (auto simp: summarizeDay_def Let_def paired_def split: option.splits)

end
